theory Spec2Isabelle
  imports Complex_Main "HOL-Library.Word" "HOL-Library.Log_Nat"
begin

section \<open>ReplayGain analysis (gain\_analysis.c): types and constants\<close>

text \<open>
  The embedding follows \<^verbatim>\<open>gain_analysis.c\<close> function by function. Conventions:
  \<^item> \<^verbatim>\<open>Float_t\<close> and \<^verbatim>\<open>double\<close> values of the filters and of the running sums are
    exact reals: the rounding of the filter arithmetic is not modelled. The two places
    where a \<^verbatim>\<open>double\<close> product is turned into an integer by \<^verbatim>\<open>ceil\<close> (the window
    size and the percentile threshold) are modelled with IEEE-754 binary64 rounding
    (\<open>round_double\<close> below), because there the rounding decides the integer.
  \<^item> \<^verbatim>\<open>Uint32_t\<close> and \<^verbatim>\<open>Int32_t\<close> are \<open>32 word\<close>; \<^verbatim>\<open>long\<close> and \<^verbatim>\<open>int\<close> are both
    32 bits wide (the code is a Win32 DLL), so \<^verbatim>\<open>(int)(samplefreq)\<close> is the identity;
    \<^verbatim>\<open>size_t\<close> values are naturals below \<open>2 ^ 32\<close>, with the wrap-around written out
    where the code subtracts or adds them unguarded.
  \<^item> An array is a function from indices to values; only the indices below the declared
    size belong to the array. A pointer into an array is the index it points at.
\<close>

type_synonym Float_t = real
type_synonym Uint32_t = "32 word"
type_synonym Int32_t = "32 word"

definition YULE_ORDER :: nat where
  "YULE_ORDER = 10"

definition BUTTER_ORDER :: nat where
  "BUTTER_ORDER = 2"

definition MAX_ORDER :: nat where
  "MAX_ORDER = (if BUTTER_ORDER > YULE_ORDER then BUTTER_ORDER else YULE_ORDER)"

definition STEPS_per_dB :: real where
  "STEPS_per_dB = 100"

definition MAX_dB :: real where
  "MAX_dB = 120"

definition PINK_REF :: real where
  "PINK_REF = 64.82"

text \<open>\<^verbatim>\<open>sizeof(rg->A) / sizeof(*(rg->A))\<close>, that is \<^verbatim>\<open>(size_t)(STEPS_per_dB * MAX_dB)\<close>.\<close>

definition HIST_LEN :: nat where
  "HIST_LEN = nat \<lfloor>STEPS_per_dB * MAX_dB\<rfloor>"

definition SIZE_MAX :: nat where
  "SIZE_MAX = 2 ^ 32 - 1"

text \<open>
  Modelled from the spec: the header \<^verbatim>\<open>gain_analysis.h\<close>, which defines the return codes
  \<^verbatim>\<open>INIT_GAIN_ANALYSIS_OK\<close>, \<^verbatim>\<open>INIT_GAIN_ANALYSIS_ERROR\<close>, \<^verbatim>\<open>GAIN_ANALYSIS_OK\<close> and
  \<^verbatim>\<open>GAIN_ANALYSIS_ERROR\<close>, is not part of the sources; the spec gives the results of
  initialize and feed as \<open>{OK, ERROR}\<close>. The sentinel \<^verbatim>\<open>GAIN_NOT_ENOUGH_SAMPLES\<close> of the
  same header is a parameter of the functions that return it.
\<close>

datatype init_status = INIT_GAIN_ANALYSIS_ERROR | INIT_GAIN_ANALYSIS_OK

datatype gain_status = GAIN_ANALYSIS_ERROR | GAIN_ANALYSIS_OK

subsection \<open>Binary64 rounding of a product\<close>

text \<open>
  \<open>round_double x\<close> is the binary64 value nearest to \<open>x\<close> (ties to even) for
  \<open>2 ^ 64 > \<bar>x\<bar> \<ge> 1 / 2 ^ 64\<close>, where every binary64 value is normal: \<open>binade a\<close> is
  the exponent \<open>e\<close> with \<open>2 ^ e \<le> a < 2 ^ (e + 1)\<close>, and the significand keeps 53 bits.
\<close>

definition pow2 :: "int \<Rightarrow> real" where
  "pow2 e = (if 0 \<le> e then 2 ^ nat e else 1 / 2 ^ nat (- e))"

definition binade :: "real \<Rightarrow> int" where
  "binade a = int (floorlog 2 (nat \<lfloor>a * 2 ^ 64\<rfloor>)) - 65"

definition round_half_even :: "real \<Rightarrow> int" where
  "round_half_even q =
     (let f = \<lfloor>q\<rfloor>
      in if q - of_int f < 1 / 2 then f
         else if 1 / 2 < q - of_int f then f + 1
         else if even f then f else f + 1)"

definition round_double :: "real \<Rightarrow> real" where
  "round_double x =
     (if x = 0 then 0
      else let u = pow2 (binade \<bar>x\<bar> - 52)
           in sgn x * of_int (round_half_even (\<bar>x\<bar> / u)) * u)"

text \<open>
  \<^verbatim>\<open>#define RMS_WINDOW_TIME 0.050\<close>: the binary64 value of the literal.
  \<^verbatim>\<open>#define RMS_PERCENTILE 0.95\<close>: likewise; \<^verbatim>\<open>1. - RMS_PERCENTILE\<close> is computed
  without rounding error (both operands lie in one binade pair), and is slightly more
  than one twentieth.
\<close>

definition RMS_WINDOW_TIME :: real where
  "RMS_WINDOW_TIME = 3602879701896397 / 2 ^ 56"

definition RMS_PERCENTILE :: real where
  "RMS_PERCENTILE = 8556839292003942 / 2 ^ 53"

subsection \<open>Filter coefficients\<close>

definition ABYule :: "Float_t list list" where
  "ABYule = [
   [0.006471345933032, - 7.22103125152679, - 0.02567678242161, 24.7034187975904,
    0.049805860704367, - 52.6825833623896, - 0.05823001743528, 77.4825736677539,
    0.040611847441914, - 82.0074753444205, - 0.010912036887501, 63.1566097101925,
    - 0.00901635868667, - 34.889569769245, 0.012448886238123, 13.2126852760198,
    - 0.007206683749426, - 3.09445623301669, 0.002167156433951, 0.340344741393305,
    - 0.000261819276949],
   [0.015415414474287, - 7.19001570087017, - 0.07691359399407, 24.4109412087159,
    0.196677418516518, - 51.6306373580801, - 0.338855114128061, 75.3978476863163,
    0.430094579594561, - 79.4164552507386, - 0.415015413747894, 61.0373661948115,
    0.304942508151101, - 33.7446462547014, - 0.166191795926663, 12.8168791146274,
    0.063198189938739, - 3.01332198541437, - 0.015003978694525, 0.223619893831468,
    0.001748085184539],
   [0.021776466467053, - 5.74819833657784, - 0.062376961003801, 16.246507961894,
    0.107731165328514, - 29.9691822642542, - 0.150994515142316, 40.027597579378,
    0.170334807313632, - 40.3209196052655, - 0.157984942890531, 30.8542077487718,
    0.121639833268721, - 17.5965138737281, - 0.074094040816409, 7.10690214103873,
    0.031282852041061, - 1.82175564515191, - 0.00755421235941, 0.223619893831468,
    0.00117925454213],
   [0.03857599435200, - 3.84664617118067, - 0.02160367184185, 7.81501653005538,
    - 0.00123395316851, - 11.34170355132042, - 0.00009291677959, 13.05504219327545,
    - 0.01655260341619, - 12.28759895145294, 0.02161526843274, 9.48293806319790,
    - 0.02074045215285, - 5.87257861775999, 0.00594298065125, 2.75465861874613,
    0.00306428023191, - 0.86984376593551, 0.00012025322027, 0.13919314567432, 0.00288463683916],
   [0.05418656406430, - 3.47845948550071, - 0.02911007808948, 6.36317777566148,
    - 0.00848709379851, - 8.54751527471874, - 0.00851165645469, 9.47693607801280,
    - 0.00834990904936, - 8.81498681370155, 0.02245293253339, 6.85401540936998,
    - 0.02596338512915, - 4.39470996079559, 0.01624864962975, 2.19611684890774,
    - 0.00240879051584, - 0.75104302451432, 0.00674613682247, 0.13149317958808,
    - 0.00187763777362],
   [0.15457299681924, - 2.37898834973084, - 0.09331049056315, 2.84868151156327,
    - 0.06247880153653, - 2.64577170229825, 0.02163541888798, 2.23697657451713,
    - 0.05588393329856, - 1.67148153367602, 0.04781476674921, 1.00595954808547,
    0.00222312597743, - 0.45953458054983, 0.03174092540049, 0.16378164858596,
    - 0.01390589421898, - 0.05032077717131, 0.00651420667831, 0.02347897407020,
    - 0.00881362733839],
   [0.30296907319327, - 1.61273165137247, - 0.22613988682123, 1.07977492259970,
    - 0.08587323730772, - 0.25656257754070, 0.03282930172664, - 0.16276719120440,
    - 0.00915702933434, - 0.22638893773906, - 0.02364141202522, 0.39120800788284,
    - 0.00584456039913, - 0.22138138954925, 0.06276101321749, 0.04500235387352,
    - 0.00000828086748, 0.02005851806501, 0.00205861885564, 0.00302439095741,
    - 0.02950134983287],
   [0.33642304856132, - 1.49858979367799, - 0.25572241425570, 0.87350271418188,
    - 0.11828570177555, 0.12205022308084, 0.11921148675203, - 0.80774944671438,
    - 0.07834489609479, 0.47854794562326, - 0.00469977914380, - 0.12453458140019,
    - 0.00589500224440, - 0.04067510197014, 0.05724228140351, 0.08333755284107,
    0.00832043980773, - 0.04237348025746, - 0.01635381384540, 0.02977207319925,
    - 0.01760176568150],
   [0.44915256608450, - 0.62820619233671, - 0.14351757464547, 0.29661783706366,
    - 0.22784394429749, - 0.37256372942400, - 0.01419140100551, 0.00213767857124,
    0.04078262797139, - 0.42029820170918, - 0.12398163381748, 0.22199650564824,
    0.04097565135648, 0.00613424350682, 0.10478503600251, 0.06747620744683,
    - 0.01863887810927, 0.05784820375801, - 0.03193428438915, 0.03222754072173,
    0.00541907748707],
   [0.56619470757641, - 1.04800335126349, - 0.75464456939302, 0.29156311971249,
    0.16242137742230, - 0.26806001042947, 0.16744243493672, 0.00819999645858,
    - 0.18901604199609, 0.45054734505008, 0.30931782841830, - 0.33032403314006,
    - 0.27562961986224, 0.06739368333110, 0.00647310677246, - 0.04784254229033,
    0.08647503780351, 0.01639907836189, - 0.03788984554840, 0.01807364323573,
    - 0.00588215443421],
   [0.58100494960553, - 0.51035327095184, - 0.53174909058578, - 0.31863563325245,
    - 0.14289799034253, - 0.20256413484477, 0.17520704835522, 0.14728154134330,
    0.02377945217615, 0.38952639978999, 0.15558449135573, - 0.23313271880868,
    - 0.25344790059353, - 0.05246019024463, 0.01628462406333, - 0.02505961724053,
    0.06920467763959, 0.02442357316099, - 0.03721611395801, 0.01818801111503,
    - 0.00749618797172],
   [0.53648789255105, - 0.25049871956020, - 0.42163034350696, - 0.43193942311114,
    - 0.00275953611929, - 0.03424681017675, 0.04267842219415, - 0.04678328784242,
    - 0.10214864179676, 0.26408300200955, 0.14590772289388, 0.15113130533216,
    - 0.02459864859345, - 0.17556493366449, - 0.11202315195388, - 0.18823009262115,
    - 0.04060034127000, 0.05477720428674, 0.04788665548180, 0.04704409688120,
    - 0.02217936801134]
  ]"

definition ABButter :: "Float_t list list" where
  "ABButter = [
   [0.99308203517541, - 1.98611621154089, - 1.98616407035082, 0.986211929160751,
    0.99308203517541],
   [0.992472550461293, - 1.98488843762334, - 1.98494510092258, 0.979389350028798,
    0.992472550461293],
   [0.989641019334721, - 1.97917472731008, - 1.97928203866944, 0.979389350028798,
    0.989641019334721],
   [0.98621192462708, - 1.97223372919527, - 1.97242384925416, 0.97261396931306,
    0.98621192462708],
   [0.98500175787242, - 1.96977855582618, - 1.97000351574484, 0.97022847566350,
    0.98500175787242],
   [0.97938932735214, - 1.95835380975398, - 1.95877865470428, 0.95920349965459,
    0.97938932735214],
   [0.97531843204928, - 1.95002759149878, - 1.95063686409857, 0.95124613669835,
    0.97531843204928],
   [0.97316523498161, - 1.94561023566527, - 1.94633046996323, 0.94705070426118,
    0.97316523498161],
   [0.96454515552826, - 1.92783286977036, - 1.92909031105652, 0.93034775234268,
    0.96454515552826],
   [0.96009142950541, - 1.91858953033784, - 1.92018285901082, 0.92177618768381,
    0.96009142950541],
   [0.95856916599601, - 1.91542108074780, - 1.91713833199203, 0.91885558323625,
    0.95856916599601],
   [0.94597685600279, - 1.88903307939452, - 1.89195371200558, 0.89487434461664,
    0.94597685600279]
  ]"

section \<open>The analysis context\<close>

text \<open>
  \<^verbatim>\<open>ReplayGainContext\<close>. The six pointers \<^verbatim>\<open>linpre\<close>, \<^verbatim>\<open>lstep\<close>, \<^verbatim>\<open>lout\<close>, \<^verbatim>\<open>rinpre\<close>,
  \<^verbatim>\<open>rstep\<close>, \<^verbatim>\<open>rout\<close> are kept as offsets into the buffer each of them points into.
\<close>

record ReplayGainContext =
  linprebuf :: "nat \<Rightarrow> Float_t"
  linpre :: nat
  lstepbuf :: "nat \<Rightarrow> Float_t"
  lstep :: nat
  loutbuf :: "nat \<Rightarrow> Float_t"
  lout :: nat
  rinprebuf :: "nat \<Rightarrow> Float_t"
  rinpre :: nat
  rstepbuf :: "nat \<Rightarrow> Float_t"
  rstep :: nat
  routbuf :: "nat \<Rightarrow> Float_t"
  rout :: nat
  sampleWindow :: nat
  totsamp :: nat
  lsum :: real
  rsum :: real
  freqindex :: nat
  first :: int
  A :: "nat \<Rightarrow> Uint32_t"
  B :: "nat \<Rightarrow> Uint32_t"

text \<open>
  \<^verbatim>\<open>memcpy\<close> and \<^verbatim>\<open>memmove\<close> of \<open>n\<close> elements from \<open>src + s\<close> to \<open>dst + d\<close>
  (\<^verbatim>\<open>memmove\<close> is the case \<open>src = dst\<close>: the source is read before anything is written).
\<close>

definition copy_into ::
  "(nat \<Rightarrow> 'a) \<Rightarrow> nat \<Rightarrow> (nat \<Rightarrow> 'a) \<Rightarrow> nat \<Rightarrow> nat \<Rightarrow> (nat \<Rightarrow> 'a)" where
  "copy_into dst d src s n = (\<lambda>j. if d \<le> j \<and> j < d + n then src (s + (j - d)) else dst j)"

text \<open>The loop \<^verbatim>\<open>for (i = 0; i < MAX_ORDER; i++) buf[i] = 0.\<close> on one buffer.\<close>

definition zero_prefix :: "(nat \<Rightarrow> Float_t) \<Rightarrow> (nat \<Rightarrow> Float_t)" where
  "zero_prefix buf = (\<lambda>j. if j < MAX_ORDER then 0 else buf j)"

text \<open>\<^verbatim>\<open>memset (hist, 0, sizeof(hist))\<close> on a histogram.\<close>

definition clear_hist :: "(nat \<Rightarrow> Uint32_t) \<Rightarrow> (nat \<Rightarrow> Uint32_t)" where
  "clear_hist h = (\<lambda>i. if i < HIST_LEN then 0 else h i)"

section \<open>The two IIR filters\<close>

text \<open>
  \<open>input\<close> and \<open>output\<close> are the arrays, \<open>ip\<close> and \<open>op\<close> the positions of the two
  pointers. The code requires \<^verbatim>\<open>ip[-order]\<close> and \<^verbatim>\<open>op[-order]\<close> to point to real data,
  so \<open>ip\<close> and \<open>op\<close> are at least the order.
\<close>

fun filterYule ::
  "(nat \<Rightarrow> Float_t) \<Rightarrow> nat \<Rightarrow> (nat \<Rightarrow> Float_t) \<Rightarrow> nat \<Rightarrow> nat \<Rightarrow> Float_t list \<Rightarrow> (nat \<Rightarrow> Float_t)" where
  "filterYule input ip output op 0 kern = output"
| "filterYule input ip output op (Suc nSamples) kern =
     filterYule input (ip + 1)
       (output(op := 1 / 10 ^ 10
            + input ip * kern ! 0
            - output (op - 1) * kern ! 1
            + input (ip - 1) * kern ! 2
            - output (op - 2) * kern ! 3
            + input (ip - 2) * kern ! 4
            - output (op - 3) * kern ! 5
            + input (ip - 3) * kern ! 6
            - output (op - 4) * kern ! 7
            + input (ip - 4) * kern ! 8
            - output (op - 5) * kern ! 9
            + input (ip - 5) * kern ! 10
            - output (op - 6) * kern ! 11
            + input (ip - 6) * kern ! 12
            - output (op - 7) * kern ! 13
            + input (ip - 7) * kern ! 14
            - output (op - 8) * kern ! 15
            + input (ip - 8) * kern ! 16
            - output (op - 9) * kern ! 17
            + input (ip - 9) * kern ! 18
            - output (op - 10) * kern ! 19
            + input (ip - 10) * kern ! 20))
       (op + 1) nSamples kern"

fun filterButter ::
  "(nat \<Rightarrow> Float_t) \<Rightarrow> nat \<Rightarrow> (nat \<Rightarrow> Float_t) \<Rightarrow> nat \<Rightarrow> nat \<Rightarrow> Float_t list \<Rightarrow> (nat \<Rightarrow> Float_t)" where
  "filterButter input ip output op 0 kern = output"
| "filterButter input ip output op (Suc nSamples) kern =
     filterButter input (ip + 1)
       (output(op := input ip * kern ! 0
            - output (op - 1) * kern ! 1
            + input (ip - 1) * kern ! 2
            - output (op - 2) * kern ! 3
            + input (ip - 2) * kern ! 4))
       (op + 1) nSamples kern"

section \<open>Initialisation\<close>

text \<open>The \<^verbatim>\<open>switch\<close> of \<^verbatim>\<open>WAResetSampleFrequency\<close>; \<open>None\<close> is the \<^verbatim>\<open>default\<close> branch.\<close>

definition freq_switch :: "int \<Rightarrow> nat option" where
  "freq_switch f =
     (if f = 96000 then Some 0
      else if f = 88200 then Some 1
      else if f = 64000 then Some 2
      else if f = 48000 then Some 3
      else if f = 44100 then Some 4
      else if f = 32000 then Some 5
      else if f = 24000 then Some 6
      else if f = 22050 then Some 7
      else if f = 16000 then Some 8
      else if f = 12000 then Some 9
      else if f = 11025 then Some 10
      else if f = 8000 then Some 11
      else None)"

text \<open>\<^verbatim>\<open>(int) ceil (samplefreq * RMS_WINDOW_TIME)\<close>, stored in a \<^verbatim>\<open>size_t\<close>.\<close>

definition window_size :: "int \<Rightarrow> nat" where
  "window_size f = nat \<lceil>round_double (of_int f * RMS_WINDOW_TIME)\<rceil>"

definition WAResetSampleFrequency ::
  "ReplayGainContext \<Rightarrow> 32 word \<Rightarrow> init_status \<times> ReplayGainContext" where
  "WAResetSampleFrequency rg samplefreq =
     (let rg1 = rg\<lparr>linprebuf := zero_prefix (linprebuf rg),
                   lstepbuf := zero_prefix (lstepbuf rg),
                   loutbuf := zero_prefix (loutbuf rg),
                   rinprebuf := zero_prefix (rinprebuf rg),
                   rstepbuf := zero_prefix (rstepbuf rg),
                   routbuf := zero_prefix (routbuf rg)\<rparr>
      in case freq_switch (sint samplefreq) of
           None \<Rightarrow> (INIT_GAIN_ANALYSIS_ERROR, rg1)
         | Some idx \<Rightarrow>
             (INIT_GAIN_ANALYSIS_OK,
              rg1\<lparr>freqindex := idx,
                  sampleWindow := window_size (sint samplefreq),
                  lsum := 0, rsum := 0, totsamp := 0,
                  A := clear_hist (A rg1)\<rparr>))"

definition WAInitGainAnalysis ::
  "ReplayGainContext \<Rightarrow> 32 word \<Rightarrow> init_status \<times> ReplayGainContext" where
  "WAInitGainAnalysis rg samplefreq =
     (case WAResetSampleFrequency rg samplefreq of
        (INIT_GAIN_ANALYSIS_ERROR, rg1) \<Rightarrow> (INIT_GAIN_ANALYSIS_ERROR, rg1)
      | (INIT_GAIN_ANALYSIS_OK, rg1) \<Rightarrow>
          (INIT_GAIN_ANALYSIS_OK,
           rg1\<lparr>linpre := MAX_ORDER, rinpre := MAX_ORDER,
               lstep := MAX_ORDER, rstep := MAX_ORDER,
               lout := MAX_ORDER, rout := MAX_ORDER,
               B := clear_hist (B rg1)\<rparr>))"

section \<open>Feeding samples\<close>

definition fsqr :: "real \<Rightarrow> real" where
  "fsqr d = d * d"

text \<open>
  The first summation loop, \<^verbatim>\<open>i = cursamples % 16; while (i--) sum += fsqr(*cur++)\<close>,
  for one channel: the result is the sum and the advanced pointer.
\<close>

fun sum_single :: "(nat \<Rightarrow> Float_t) \<Rightarrow> nat \<Rightarrow> nat \<Rightarrow> real \<Rightarrow> real \<times> nat" where
  "sum_single buf cur 0 s = (s, cur)"
| "sum_single buf cur (Suc i) s = sum_single buf (cur + 1) i (s + fsqr (buf cur))"

text \<open>The second, unrolled loop, sixteen squares at a time.\<close>

fun sum_unrolled :: "(nat \<Rightarrow> Float_t) \<Rightarrow> nat \<Rightarrow> nat \<Rightarrow> real \<Rightarrow> real" where
  "sum_unrolled buf cur 0 s = s"
| "sum_unrolled buf cur (Suc i) s =
     sum_unrolled buf (cur + 16) i
       (s + (fsqr (buf cur)
           + fsqr (buf (cur + 1))
           + fsqr (buf (cur + 2))
           + fsqr (buf (cur + 3))
           + fsqr (buf (cur + 4))
           + fsqr (buf (cur + 5))
           + fsqr (buf (cur + 6))
           + fsqr (buf (cur + 7))
           + fsqr (buf (cur + 8))
           + fsqr (buf (cur + 9))
           + fsqr (buf (cur + 10))
           + fsqr (buf (cur + 11))
           + fsqr (buf (cur + 12))
           + fsqr (buf (cur + 13))
           + fsqr (buf (cur + 14))
           + fsqr (buf (cur + 15))))"

definition sum_squares :: "(nat \<Rightarrow> Float_t) \<Rightarrow> nat \<Rightarrow> nat \<Rightarrow> real \<Rightarrow> real" where
  "sum_squares buf cur cursamples s =
     (case sum_single buf cur (cursamples mod 16) s of
        (s1, cur1) \<Rightarrow> sum_unrolled buf cur1 (cursamples div 16) s1)"

text \<open>
  \<^verbatim>\<open>(int) val\<close> truncates towards zero; the two \<^verbatim>\<open>if\<close>s then clamp the index into the
  histogram.
\<close>

definition trunc_int :: "real \<Rightarrow> int" where
  "trunc_int v = (if v < 0 then \<lceil>v\<rceil> else \<lfloor>v\<rfloor>)"

definition window_val :: "ReplayGainContext \<Rightarrow> real" where
  "window_val rg =
     STEPS_per_dB * 10 * log 10 ((lsum rg + rsum rg) / real (totsamp rg) * 0.5 + 1 / 10 ^ 37)"

definition window_ival :: "ReplayGainContext \<Rightarrow> nat" where
  "window_ival rg =
     (let ival = trunc_int (window_val rg);
          ival1 = (if ival < 0 then 0 else ival);
          ival2 = (if ival1 \<ge> int HIST_LEN then int HIST_LEN - 1 else ival1)
      in nat ival2)"

text \<open>The body of \<^verbatim>\<open>if ( rg->totsamp == rg->sampleWindow )\<close>.\<close>

definition window_complete :: "ReplayGainContext \<Rightarrow> ReplayGainContext" where
  "window_complete rg =
     rg\<lparr>A := (A rg)(window_ival rg := A rg (window_ival rg) + 1),
        lsum := 0, rsum := 0,
        loutbuf := copy_into (loutbuf rg) 0 (loutbuf rg) (totsamp rg) MAX_ORDER,
        routbuf := copy_into (routbuf rg) 0 (routbuf rg) (totsamp rg) MAX_ORDER,
        lstepbuf := copy_into (lstepbuf rg) 0 (lstepbuf rg) (totsamp rg) MAX_ORDER,
        rstepbuf := copy_into (rstepbuf rg) 0 (rstepbuf rg) (totsamp rg) MAX_ORDER,
        totsamp := 0\<rparr>"

text \<open>
  The number of samples of one pass of the \<^verbatim>\<open>while\<close> loop. The subtraction
  \<^verbatim>\<open>rg->sampleWindow - rg->totsamp\<close> is unsigned.
\<close>

definition cursamples_of :: "ReplayGainContext \<Rightarrow> nat \<Rightarrow> nat \<Rightarrow> nat" where
  "cursamples_of rg batchsamples cursamplepos =
     (let room = (sampleWindow rg + 2 ^ 32 - totsamp rg) mod 2 ^ 32;
          cursamples = (if batchsamples > room then room else batchsamples)
      in if cursamplepos < MAX_ORDER \<and> cursamples > MAX_ORDER - cursamplepos
         then MAX_ORDER - cursamplepos else cursamples)"

text \<open>
  One pass of the loop up to the window test: the four filter calls, the two sums, the
  advance of \<^verbatim>\<open>totsamp\<close> (a \<^verbatim>\<open>size_t\<close> addition).
\<close>

definition accumulate_batch ::
  "(nat \<Rightarrow> Float_t) \<Rightarrow> (nat \<Rightarrow> Float_t) \<Rightarrow> nat \<Rightarrow> nat \<Rightarrow> ReplayGainContext \<Rightarrow> ReplayGainContext" where
  "accumulate_batch left_samples right_samples cursamplepos cursamples rg =
     (let curleft = (if cursamplepos < MAX_ORDER then (linprebuf rg, linpre rg + cursamplepos)
                     else (left_samples, cursamplepos));
          curright = (if cursamplepos < MAX_ORDER then (rinprebuf rg, rinpre rg + cursamplepos)
                      else (right_samples, cursamplepos));
          rg1 = rg\<lparr>lstepbuf := filterYule (fst curleft) (snd curleft) (lstepbuf rg)
                                  (lstep rg + totsamp rg) cursamples (ABYule ! freqindex rg)\<rparr>;
          rg2 = rg1\<lparr>rstepbuf := filterYule (fst curright) (snd curright) (rstepbuf rg1)
                                   (rstep rg1 + totsamp rg1) cursamples (ABYule ! freqindex rg1)\<rparr>;
          rg3 = rg2\<lparr>loutbuf := filterButter (lstepbuf rg2) (lstep rg2 + totsamp rg2) (loutbuf rg2)
                                   (lout rg2 + totsamp rg2) cursamples (ABButter ! freqindex rg2)\<rparr>;
          rg4 = rg3\<lparr>routbuf := filterButter (rstepbuf rg3) (rstep rg3 + totsamp rg3) (routbuf rg3)
                                   (rout rg3 + totsamp rg3) cursamples (ABButter ! freqindex rg3)\<rparr>;
          rg5 = rg4\<lparr>lsum := sum_squares (loutbuf rg4) (lout rg4 + totsamp rg4) cursamples (lsum rg4),
                    rsum := sum_squares (routbuf rg4) (rout rg4 + totsamp rg4) cursamples (rsum rg4)\<rparr>
      in rg5\<lparr>totsamp := (totsamp rg5 + cursamples) mod 2 ^ 32\<rparr>)"

text \<open>The pass with the window test \<^verbatim>\<open>if ( rg->totsamp == rg->sampleWindow )\<close>.\<close>

definition analyze_batch ::
  "(nat \<Rightarrow> Float_t) \<Rightarrow> (nat \<Rightarrow> Float_t) \<Rightarrow> nat \<Rightarrow> nat \<Rightarrow> ReplayGainContext \<Rightarrow> ReplayGainContext" where
  "analyze_batch left_samples right_samples cursamplepos cursamples rg =
     (let rg6 = accumulate_batch left_samples right_samples cursamplepos cursamples rg
      in if totsamp rg6 = sampleWindow rg6 then window_complete rg6 else rg6)"

text \<open>
  The \<^verbatim>\<open>while ( batchsamples > 0 )\<close> loop. It does not return when the window size is
  zero (a pass then consumes no sample), hence the option: \<open>None\<close> is "never returns".
  \<open>Some (GAIN_ANALYSIS_ERROR, rg)\<close> is the \<^verbatim>\<open>return\<close> inside the loop.
\<close>

partial_function (option) analyze_loop ::
  "(nat \<Rightarrow> Float_t) \<Rightarrow> (nat \<Rightarrow> Float_t) \<Rightarrow> nat \<Rightarrow> nat \<Rightarrow> ReplayGainContext
     \<Rightarrow> (gain_status \<times> ReplayGainContext) option" where
  "analyze_loop left_samples right_samples batchsamples cursamplepos rg =
     (if batchsamples > 0 then
        (let cursamples = cursamples_of rg batchsamples cursamplepos;
             rg1 = analyze_batch left_samples right_samples cursamplepos cursamples rg
         in if totsamp rg1 > sampleWindow rg1 then Some (GAIN_ANALYSIS_ERROR, rg1)
            else analyze_loop left_samples right_samples
                   (batchsamples - cursamples) (cursamplepos + cursamples) rg1)
      else Some (GAIN_ANALYSIS_OK, rg))"

text \<open>The two-phase copy of the raw samples around the loop.\<close>

definition stage_input ::
  "(nat \<Rightarrow> Float_t) \<Rightarrow> (nat \<Rightarrow> Float_t) \<Rightarrow> nat \<Rightarrow> ReplayGainContext \<Rightarrow> ReplayGainContext" where
  "stage_input left_samples right_samples num_samples rg =
     (if num_samples < MAX_ORDER
      then rg\<lparr>linprebuf := copy_into (linprebuf rg) MAX_ORDER left_samples 0 num_samples,
              rinprebuf := copy_into (rinprebuf rg) MAX_ORDER right_samples 0 num_samples\<rparr>
      else rg\<lparr>linprebuf := copy_into (linprebuf rg) MAX_ORDER left_samples 0 MAX_ORDER,
              rinprebuf := copy_into (rinprebuf rg) MAX_ORDER right_samples 0 MAX_ORDER\<rparr>)"

definition save_history ::
  "(nat \<Rightarrow> Float_t) \<Rightarrow> (nat \<Rightarrow> Float_t) \<Rightarrow> nat \<Rightarrow> ReplayGainContext \<Rightarrow> ReplayGainContext" where
  "save_history left_samples right_samples num_samples rg =
     (if num_samples < MAX_ORDER
      then (let l1 = copy_into (linprebuf rg) 0 (linprebuf rg) num_samples (MAX_ORDER - num_samples);
                r1 = copy_into (rinprebuf rg) 0 (rinprebuf rg) num_samples (MAX_ORDER - num_samples)
            in rg\<lparr>linprebuf := copy_into l1 (MAX_ORDER - num_samples) left_samples 0 num_samples,
                  rinprebuf := copy_into r1 (MAX_ORDER - num_samples) right_samples 0 num_samples\<rparr>)
      else rg\<lparr>linprebuf := copy_into (linprebuf rg) 0 left_samples (num_samples - MAX_ORDER) MAX_ORDER,
              rinprebuf := copy_into (rinprebuf rg) 0 right_samples (num_samples - MAX_ORDER) MAX_ORDER\<rparr>)"

text \<open>
  \<^verbatim>\<open>WAAnalyzeSamples\<close>. With \<open>num_channels = 1\<close> the right channel is the left one
  (\<^verbatim>\<open>case 1: right_samples = left_samples;\<close> falls through to \<^verbatim>\<open>case 2\<close>).
\<close>

definition WAAnalyzeSamples ::
  "ReplayGainContext \<Rightarrow> (nat \<Rightarrow> Float_t) \<Rightarrow> (nat \<Rightarrow> Float_t) \<Rightarrow> nat \<Rightarrow> int
     \<Rightarrow> (gain_status \<times> ReplayGainContext) option" where
  "WAAnalyzeSamples rg left_samples right_samples num_samples num_channels =
     (if num_samples = 0 then Some (GAIN_ANALYSIS_OK, rg)
      else if num_channels \<noteq> 1 \<and> num_channels \<noteq> 2 then Some (GAIN_ANALYSIS_ERROR, rg)
      else
        (let right_samples1 = (if num_channels = 1 then left_samples else right_samples);
             rg1 = stage_input left_samples right_samples1 num_samples rg
         in case analyze_loop left_samples right_samples1 num_samples 0 rg1 of
              None \<Rightarrow> None
            | Some (GAIN_ANALYSIS_ERROR, rg2) \<Rightarrow> Some (GAIN_ANALYSIS_ERROR, rg2)
            | Some (GAIN_ANALYSIS_OK, rg2) \<Rightarrow>
                Some (GAIN_ANALYSIS_OK,
                      save_history left_samples right_samples1 num_samples rg2)))"

section \<open>The gain queries\<close>

text \<open>The loop \<^verbatim>\<open>for ( i = 0; i < len; i++ ) elems += Array[i]\<close>.\<close>

definition sum_elems :: "(nat \<Rightarrow> Uint32_t) \<Rightarrow> nat \<Rightarrow> Uint32_t" where
  "sum_elems Array len = fold (\<lambda>i elems. elems + Array i) [0..<len] 0"

text \<open>\<^verbatim>\<open>(Int32_t) ceil (elems * (1. - RMS_PERCENTILE))\<close>.\<close>

definition upper_of :: "Uint32_t \<Rightarrow> Int32_t" where
  "upper_of elems = word_of_int \<lceil>round_double (real (unat elems) * (1 - RMS_PERCENTILE))\<rceil>"

text \<open>
  The loop \<^verbatim>\<open>for ( i = len; i-- > 0; ) if ( (upper -= Array[i]) <= 0 ) break;\<close>. The first
  argument after the array is the value of \<open>i\<close> before the test. \<open>Some i\<close> is the index at
  the \<^verbatim>\<open>break\<close>; \<open>None\<close> means the loop ran out, which leaves \<open>i\<close> at \<open>SIZE_MAX\<close>.
  The subtraction is done on 32 bits and the comparison is signed.
\<close>

fun scan_down :: "(nat \<Rightarrow> Uint32_t) \<Rightarrow> nat \<Rightarrow> Int32_t \<Rightarrow> nat option" where
  "scan_down Array 0 upper = None"
| "scan_down Array (Suc i) upper =
     (if sint (upper - Array i) \<le> 0 then Some i else scan_down Array i (upper - Array i))"

definition analyzeResult :: "Float_t \<Rightarrow> (nat \<Rightarrow> Uint32_t) \<Rightarrow> nat \<Rightarrow> Float_t" where
  "analyzeResult GAIN_NOT_ENOUGH_SAMPLES Array len =
     (let elems = sum_elems Array len
      in if elems = 0 then GAIN_NOT_ENOUGH_SAMPLES
         else (case scan_down Array len (upper_of elems) of
                 Some i \<Rightarrow> PINK_REF - real i / STEPS_per_dB
               | None \<Rightarrow> PINK_REF - real SIZE_MAX / STEPS_per_dB))"

definition WAGetTitleGain :: "Float_t \<Rightarrow> ReplayGainContext \<Rightarrow> Float_t \<times> ReplayGainContext" where
  "WAGetTitleGain GAIN_NOT_ENOUGH_SAMPLES rg =
     (let retval = analyzeResult GAIN_NOT_ENOUGH_SAMPLES (A rg) HIST_LEN
      in (retval,
          rg\<lparr>B := (\<lambda>i. if i < HIST_LEN then B rg i + A rg i else B rg i),
             A := (\<lambda>i. if i < HIST_LEN then 0 else A rg i),
             linprebuf := zero_prefix (linprebuf rg),
             lstepbuf := zero_prefix (lstepbuf rg),
             loutbuf := zero_prefix (loutbuf rg),
             rinprebuf := zero_prefix (rinprebuf rg),
             rstepbuf := zero_prefix (rstepbuf rg),
             routbuf := zero_prefix (routbuf rg),
             totsamp := 0, lsum := 0, rsum := 0\<rparr>))"

definition WAGetAlbumGain :: "Float_t \<Rightarrow> ReplayGainContext \<Rightarrow> Float_t" where
  "WAGetAlbumGain GAIN_NOT_ENOUGH_SAMPLES rg = analyzeResult GAIN_NOT_ENOUGH_SAMPLES (B rg) HIST_LEN"

section \<open>States between calls, and chunks of frames\<close>

text \<open>An array of zeros.\<close>

definition silence :: "nat \<Rightarrow> Float_t" where
  "silence = (\<lambda>_. 0)"


text \<open>
  What \<^verbatim>\<open>WAInitGainAnalysis\<close> establishes and every later call keeps: the six pointers
  stand \<^verbatim>\<open>MAX_ORDER\<close> entries into their buffers, and the partial window is shorter
  than the window, which is at most \<^verbatim>\<open>MAX_SAMPLES_PER_WINDOW\<close> = 4800 samples long.
\<close>

definition ready :: "ReplayGainContext \<Rightarrow> bool" where
  "ready rg \<longleftrightarrow>
     linpre rg = MAX_ORDER \<and> rinpre rg = MAX_ORDER
     \<and> lstep rg = MAX_ORDER \<and> rstep rg = MAX_ORDER
     \<and> lout rg = MAX_ORDER \<and> rout rg = MAX_ORDER
     \<and> totsamp rg < sampleWindow rg \<and> sampleWindow rg \<le> 4800"

text \<open>
  The contexts that calls of the interface produce: a successful initialisation of any
  memory, then any sequence of feeds (with any channel count), title queries and further
  initialisations, successful or not. The album query does not change the context.
\<close>

inductive reachable :: "ReplayGainContext \<Rightarrow> bool" where
  init: "WAInitGainAnalysis rg0 samplefreq = (INIT_GAIN_ANALYSIS_OK, rg) \<Longrightarrow> reachable rg"
| reinit: "reachable rg \<Longrightarrow> WAInitGainAnalysis rg samplefreq = (st, rg') \<Longrightarrow> reachable rg'"
| feed: "reachable rg \<Longrightarrow>
         WAAnalyzeSamples rg left_samples right_samples num_samples num_channels = Some (st, rg')
         \<Longrightarrow> reachable rg'"
| title: "reachable rg \<Longrightarrow> WAGetTitleGain s rg = (g, rg') \<Longrightarrow> reachable rg'"




text \<open>
  The samples of a call seen as one stream with the saved history in front: entry \<open>j\<close> is
  the history for \<open>j < MAX_ORDER\<close> and sample \<open>j - MAX_ORDER\<close> of the chunk after that.
\<close>

definition with_history :: "(nat \<Rightarrow> Float_t) \<Rightarrow> (nat \<Rightarrow> Float_t) \<Rightarrow> (nat \<Rightarrow> Float_t)" where
  "with_history hist samples = (\<lambda>j. if j < MAX_ORDER then hist j else samples (j - MAX_ORDER))"

text \<open>
  \<open>stream_pass xl xr q m rg\<close> runs \<open>m\<close> passes of one sample each over the streams
  \<open>xl\<close> and \<open>xr\<close> from position \<open>q\<close> on.
\<close>

fun stream_pass ::
  "(nat \<Rightarrow> Float_t) \<Rightarrow> (nat \<Rightarrow> Float_t) \<Rightarrow> nat \<Rightarrow> nat \<Rightarrow> ReplayGainContext \<Rightarrow> ReplayGainContext" where
  "stream_pass xl xr q 0 rg = rg"
| "stream_pass xl xr q (Suc m) rg = stream_pass xl xr (q + 1) m (analyze_batch xl xr q 1 rg)"

section \<open>The percentile algorithm as the specification words it\<close>

text \<open>
  The specification speaks of bucket counts as numbers, without a width:
  "let total = sum of all bucket counts. If total == 0, return the sentinel. Otherwise
  compute threshold = ceil(total * 0.05). Walk histogram buckets from the loudest (highest
  index) downward, subtracting each bucket's count from threshold, until the running value
  drops to <= 0; the bucket index i at which this occurs determines the result:
  gain_dB = 64.82 - i / 100.0."
  \<open>spec_walk\<close> is \<open>None\<close> when the running value never drops to zero or below, a case
  the specification does not speak about.
\<close>

definition counts :: "(nat \<Rightarrow> Uint32_t) \<Rightarrow> nat \<Rightarrow> nat" where
  "counts Array = (\<lambda>i. unat (Array i))"

definition spec_total :: "(nat \<Rightarrow> nat) \<Rightarrow> nat \<Rightarrow> nat" where
  "spec_total h len = (\<Sum>i<len. h i)"

definition spec_threshold :: "nat \<Rightarrow> int" where
  "spec_threshold tot = \<lceil>real tot * 0.05\<rceil>"

fun spec_walk :: "(nat \<Rightarrow> nat) \<Rightarrow> nat \<Rightarrow> int \<Rightarrow> nat option" where
  "spec_walk h 0 t = None"
| "spec_walk h (Suc i) t =
     (if t - int (h i) \<le> 0 then Some i else spec_walk h i (t - int (h i)))"

definition spec_percentile_gain :: "real \<Rightarrow> (nat \<Rightarrow> nat) \<Rightarrow> nat \<Rightarrow> real option" where
  "spec_percentile_gain sentinel h len =
     (if spec_total h len = 0 then Some sentinel
      else map_option (\<lambda>i. 64.82 - real i / 100.0)
             (spec_walk h len (spec_threshold (spec_total h len))))"



section \<open>Concrete contexts and inputs used in the examples\<close>

definition unit_pulse :: "nat \<Rightarrow> Float_t" where
  "unit_pulse = (\<lambda>_. 1)"

definition no_counts :: "nat \<Rightarrow> Uint32_t" where
  "no_counts = (\<lambda>_. 0)"

text \<open>Twenty windows: nineteen in bucket 5000 and one, the loudest, in bucket 6000.\<close>

definition twenty_windows :: "nat \<Rightarrow> Uint32_t" where
  "twenty_windows = no_counts(5000 := 19, 6000 := 1)"

text \<open>
  Thirty windows in three buckets, and forty-one windows in two: the bucket at which the
  scan stops depends on the threshold (2 and 3).
\<close>

definition thirty_windows :: "nat \<Rightarrow> Uint32_t" where
  "thirty_windows = no_counts(5000 := 28, 5500 := 1, 6000 := 1)"

definition forty_one_windows :: "nat \<Rightarrow> Uint32_t" where
  "forty_one_windows = no_counts(5000 := 40, 6000 := 1)"

text \<open>Two buckets of \<open>2 ^ 31\<close> windows each: the counts sum to \<open>2 ^ 32\<close>.\<close>

definition wrapped_sum :: "nat \<Rightarrow> Uint32_t" where
  "wrapped_sum = no_counts(5000 := 2147483648, 6000 := 2147483648)"

text \<open>A histogram whose bucket 0 holds the largest 32-bit count.\<close>

definition saturated :: "nat \<Rightarrow> Uint32_t" where
  "saturated = no_counts(0 := 4294967295)"

text \<open>A context whose memory is all zero, before any initialisation.\<close>

definition blank_ctx :: ReplayGainContext where
  "blank_ctx = \<lparr>linprebuf = silence, linpre = 0, lstepbuf = silence, lstep = 0,
     loutbuf = silence, lout = 0, rinprebuf = silence, rinpre = 0,
     rstepbuf = silence, rstep = 0, routbuf = silence, rout = 0,
     sampleWindow = 0, totsamp = 0, lsum = 0, rsum = 0, freqindex = 0, first = 0,
     A = no_counts, B = no_counts\<rparr>"

text \<open>
  A context in the middle of a title at 8000 Hz: three windows counted in bucket 5 of the
  title histogram, one earlier window in bucket 5 of the album histogram, a partial
  window of 399 samples, and histories that are not zero.
\<close>

definition busy_ctx :: ReplayGainContext where
  "busy_ctx = \<lparr>linprebuf = unit_pulse, linpre = 10, lstepbuf = unit_pulse, lstep = 10,
     loutbuf = unit_pulse, lout = 10, rinprebuf = unit_pulse, rinpre = 10,
     rstepbuf = unit_pulse, rstep = 10, routbuf = unit_pulse, rout = 10,
     sampleWindow = 400, totsamp = 399, lsum = 399, rsum = 399, freqindex = 11, first = 0,
     A = no_counts(5 := 3), B = no_counts(5 := 1)\<rparr>"

text \<open>The all-zero context initialised for 8000 Hz.\<close>

definition ready_8000 :: ReplayGainContext where
  "ready_8000 = snd (WAInitGainAnalysis blank_ctx 8000)"


definition one_window_ctx :: ReplayGainContext where
  "one_window_ctx = snd (the (WAAnalyzeSamples ready_8000 silence silence 400 2))"

section \<open>Sample-rate validation\<close>

lemma freq_switch_Some_iff:
  "freq_switch f \<noteq> None \<longleftrightarrow>
   f \<in> {8000, 11025, 12000, 16000, 22050, 24000, 32000, 44100, 48000, 64000, 88200, 96000}"
  by (simp add: freq_switch_def)

lemma freq_switch_None_error:
  "freq_switch (sint f) = None \<Longrightarrow> fst (WAInitGainAnalysis rg f) = INIT_GAIN_ANALYSIS_ERROR"
  by (simp add: WAInitGainAnalysis_def WAResetSampleFrequency_def Let_def)

lemma freq_switch_Some_ok:
  "freq_switch (sint f) = Some i \<Longrightarrow> fst (WAInitGainAnalysis rg f) = INIT_GAIN_ANALYSIS_OK"
  by (simp add: WAInitGainAnalysis_def WAResetSampleFrequency_def Let_def)

text \<open>
  C6. \<^verbatim>\<open>WAInitGainAnalysis\<close> returns \<^verbatim>\<open>INIT_GAIN_ANALYSIS_OK\<close> exactly for the twelve
  rates 8000, 11025, 12000, 16000, 22050, 24000, 32000, 44100, 48000, 64000, 88200 and
  96000, and \<^verbatim>\<open>INIT_GAIN_ANALYSIS_ERROR\<close> for every other rate, whatever the context.
\<close>

theorem init_accepts_exactly_the_table:
  "(fst (WAInitGainAnalysis rg samplefreq) = INIT_GAIN_ANALYSIS_OK) =
     (sint samplefreq \<in>
        {8000, 11025, 12000, 16000, 22050, 24000, 32000, 44100, 48000, 64000, 88200, 96000})
   \<and> (fst (WAInitGainAnalysis rg samplefreq) = INIT_GAIN_ANALYSIS_ERROR) =
     (sint samplefreq \<notin>
        {8000, 11025, 12000, 16000, 22050, 24000, 32000, 44100, 48000, 64000, 88200, 96000})"
proof (cases "freq_switch (sint samplefreq)")
  case None
  with freq_switch_Some_iff [of "sint samplefreq"] freq_switch_None_error [OF None, of rg]
  show ?thesis by simp
next
  case (Some i)
  with freq_switch_Some_iff [of "sint samplefreq"] freq_switch_Some_ok [OF Some, of rg]
  show ?thesis by simp
qed

section \<open>Channel-count validation\<close>

text \<open>
  C9, as stated, fails for an empty chunk: the test \<^verbatim>\<open>num_samples == 0\<close> comes before
  the \<^verbatim>\<open>switch\<close> on the channel count, so a call with three channels and no samples
  returns \<^verbatim>\<open>GAIN_ANALYSIS_OK\<close>.
\<close>

theorem empty_feed_with_three_channels_succeeds:
  "WAAnalyzeSamples blank_ctx silence silence 0 3 = Some (GAIN_ANALYSIS_OK, blank_ctx)"
  by (simp add: WAAnalyzeSamples_def)

text \<open>
  C9, amended. A call of \<^verbatim>\<open>WAAnalyzeSamples\<close> with a channel count other than 1 and 2
  returns without changing the context; it returns \<^verbatim>\<open>GAIN_ANALYSIS_ERROR\<close> when there is
  at least one sample and \<^verbatim>\<open>GAIN_ANALYSIS_OK\<close> when there is none.
\<close>

theorem bad_channel_count_leaves_context:
  "num_channels \<noteq> 1 \<Longrightarrow> num_channels \<noteq> 2 \<Longrightarrow>
   WAAnalyzeSamples rg left_samples right_samples num_samples num_channels =
     Some (if num_samples = 0 then GAIN_ANALYSIS_OK else GAIN_ANALYSIS_ERROR, rg)"
  by (simp add: WAAnalyzeSamples_def)

theorem bad_channel_count_leaves_context_witness:
  "(3::int) \<noteq> 1 \<and> (3::int) \<noteq> 2 \<and>
   WAAnalyzeSamples busy_ctx unit_pulse silence 7 3 = Some (GAIN_ANALYSIS_ERROR, busy_ctx)"
  using bad_channel_count_leaves_context [of 3 busy_ctx unit_pulse silence 7] by simp

section \<open>Effects of the title query\<close>

text \<open>
  C8. \<^verbatim>\<open>WAGetTitleGain\<close> returns the percentile result of the title histogram, adds every
  title bucket to the album bucket of the same index and zeroes the title bucket, zeroes
  the first \<^verbatim>\<open>MAX_ORDER\<close> = 10 entries of the six filter buffers, and resets
  \<^verbatim>\<open>totsamp\<close>, \<^verbatim>\<open>lsum\<close> and \<^verbatim>\<open>rsum\<close>. Everything else stays: the rest of the buffers,
  the window size, the coefficient index and the six pointers.
\<close>

theorem title_query_effects:
  "WAGetTitleGain s rg = (g, rg') \<Longrightarrow>
     g = analyzeResult s (A rg) 12000
   \<and> (\<forall>i<12000. B rg' i = B rg i + A rg i \<and> A rg' i = 0)
   \<and> (\<forall>i\<ge>12000. B rg' i = B rg i \<and> A rg' i = A rg i)
   \<and> (\<forall>j<10. linprebuf rg' j = 0 \<and> lstepbuf rg' j = 0 \<and> loutbuf rg' j = 0
            \<and> rinprebuf rg' j = 0 \<and> rstepbuf rg' j = 0 \<and> routbuf rg' j = 0)
   \<and> (\<forall>j\<ge>10. linprebuf rg' j = linprebuf rg j \<and> lstepbuf rg' j = lstepbuf rg j
            \<and> loutbuf rg' j = loutbuf rg j \<and> rinprebuf rg' j = rinprebuf rg j
            \<and> rstepbuf rg' j = rstepbuf rg j \<and> routbuf rg' j = routbuf rg j)
   \<and> totsamp rg' = 0 \<and> lsum rg' = 0 \<and> rsum rg' = 0
   \<and> sampleWindow rg' = sampleWindow rg \<and> freqindex rg' = freqindex rg
   \<and> linpre rg' = linpre rg \<and> lstep rg' = lstep rg \<and> lout rg' = lout rg
   \<and> rinpre rg' = rinpre rg \<and> rstep rg' = rstep rg \<and> rout rg' = rout rg"
  by (auto simp: WAGetTitleGain_def Let_def HIST_LEN_def STEPS_per_dB_def MAX_dB_def
      zero_prefix_def MAX_ORDER_def YULE_ORDER_def BUTTER_ORDER_def)

theorem title_query_effects_witness:
  "WAGetTitleGain 0 busy_ctx = (fst (WAGetTitleGain 0 busy_ctx), snd (WAGetTitleGain 0 busy_ctx))
   \<and> (5::nat) < 12000 \<and> (12000::nat) \<le> 12000 \<and> (9::nat) < 10 \<and> (10::nat) \<le> 10
   \<and> B (snd (WAGetTitleGain 0 busy_ctx)) 5 = 4
   \<and> A (snd (WAGetTitleGain 0 busy_ctx)) 5 = 0
   \<and> B (snd (WAGetTitleGain 0 busy_ctx)) 12000 = 0
   \<and> linprebuf (snd (WAGetTitleGain 0 busy_ctx)) 9 = 0
   \<and> linprebuf (snd (WAGetTitleGain 0 busy_ctx)) 10 = 1
   \<and> totsamp (snd (WAGetTitleGain 0 busy_ctx)) = 0
   \<and> sampleWindow (snd (WAGetTitleGain 0 busy_ctx)) = 400"
proof -
  have h: "WAGetTitleGain 0 busy_ctx
             = (fst (WAGetTitleGain 0 busy_ctx), snd (WAGetTitleGain 0 busy_ctx))"
    by simp
  from title_query_effects [OF h]
  have "B (snd (WAGetTitleGain 0 busy_ctx)) 5 = B busy_ctx 5 + A busy_ctx 5"
    and "A (snd (WAGetTitleGain 0 busy_ctx)) 5 = 0"
    and "B (snd (WAGetTitleGain 0 busy_ctx)) 12000 = B busy_ctx 12000"
    and "linprebuf (snd (WAGetTitleGain 0 busy_ctx)) 9 = 0"
    and "linprebuf (snd (WAGetTitleGain 0 busy_ctx)) 10 = linprebuf busy_ctx 10"
    and "totsamp (snd (WAGetTitleGain 0 busy_ctx)) = 0"
    and "sampleWindow (snd (WAGetTitleGain 0 busy_ctx)) = sampleWindow busy_ctx"
    by simp_all
  then show ?thesis
    by (simp add: busy_ctx_def no_counts_def unit_pulse_def)
qed

section \<open>A rejected sample rate\<close>

text \<open>
  C5, as stated, fails: \<^verbatim>\<open>WAResetSampleFrequency\<close> zeroes the six history prefixes before
  it looks at the rate, and it returns from the \<^verbatim>\<open>default\<close> branch without touching
  anything else. A context in the middle of a title loses its filter histories, and keeps
  its window size, its coefficient index and its counts: it is neither unchanged nor as
  if never initialised.
\<close>

theorem rejected_rate_changes_busy_context:
  "fst (WAInitGainAnalysis busy_ctx 44101) = INIT_GAIN_ANALYSIS_ERROR
   \<and> linprebuf busy_ctx 0 = 1
   \<and> linprebuf (snd (WAInitGainAnalysis busy_ctx 44101)) 0 = 0
   \<and> sampleWindow (snd (WAInitGainAnalysis busy_ctx 44101)) = 400
   \<and> freqindex (snd (WAInitGainAnalysis busy_ctx 44101)) = 11
   \<and> totsamp (snd (WAInitGainAnalysis busy_ctx 44101)) = 399
   \<and> A (snd (WAInitGainAnalysis busy_ctx 44101)) 5 = 3"
  by (simp add: WAInitGainAnalysis_def WAResetSampleFrequency_def Let_def freq_switch_def
      zero_prefix_def MAX_ORDER_def YULE_ORDER_def BUTTER_ORDER_def
      busy_ctx_def unit_pulse_def no_counts_def)

text \<open>
  C5, amended. For every context and every rate absent from the table,
  \<^verbatim>\<open>WAInitGainAnalysis\<close> returns \<^verbatim>\<open>INIT_GAIN_ANALYSIS_ERROR\<close>, zeroes the first
  \<^verbatim>\<open>MAX_ORDER\<close> = 10 entries of the six filter buffers, and leaves everything else as it
  was: the rest of the buffers, the window accumulators, both histograms, the window
  size, the coefficient index and the six pointers.
\<close>

theorem rejected_rate_effects:
  "sint samplefreq \<notin>
     {8000, 11025, 12000, 16000, 22050, 24000, 32000, 44100, 48000, 64000, 88200, 96000} \<Longrightarrow>
   WAInitGainAnalysis rg samplefreq = (st, rg') \<Longrightarrow>
     st = INIT_GAIN_ANALYSIS_ERROR
   \<and> (\<forall>j<10. linprebuf rg' j = 0 \<and> lstepbuf rg' j = 0 \<and> loutbuf rg' j = 0
            \<and> rinprebuf rg' j = 0 \<and> rstepbuf rg' j = 0 \<and> routbuf rg' j = 0)
   \<and> (\<forall>j\<ge>10. linprebuf rg' j = linprebuf rg j \<and> lstepbuf rg' j = lstepbuf rg j
            \<and> loutbuf rg' j = loutbuf rg j \<and> rinprebuf rg' j = rinprebuf rg j
            \<and> rstepbuf rg' j = rstepbuf rg j \<and> routbuf rg' j = routbuf rg j)
   \<and> totsamp rg' = totsamp rg \<and> lsum rg' = lsum rg \<and> rsum rg' = rsum rg
   \<and> A rg' = A rg \<and> B rg' = B rg
   \<and> sampleWindow rg' = sampleWindow rg \<and> freqindex rg' = freqindex rg
   \<and> linpre rg' = linpre rg \<and> lstep rg' = lstep rg \<and> lout rg' = lout rg
   \<and> rinpre rg' = rinpre rg \<and> rstep rg' = rstep rg \<and> rout rg' = rout rg"
proof -
  assume "sint samplefreq \<notin>
     {8000, 11025, 12000, 16000, 22050, 24000, 32000, 44100, 48000, 64000, 88200, 96000}"
  then have none: "freq_switch (sint samplefreq) = None"
    using freq_switch_Some_iff [of "sint samplefreq"] by simp
  assume "WAInitGainAnalysis rg samplefreq = (st, rg')"
  with none show ?thesis
    by (auto simp: WAInitGainAnalysis_def WAResetSampleFrequency_def Let_def
        zero_prefix_def MAX_ORDER_def YULE_ORDER_def BUTTER_ORDER_def)
qed

theorem rejected_rate_effects_witness:
  "sint (44101 :: 32 word) \<notin>
     {8000, 11025, 12000, 16000, 22050, 24000, 32000, 44100, 48000, 64000, 88200, 96000}
   \<and> (9::nat) < 10 \<and> (10::nat) \<le> 10
   \<and> fst (WAInitGainAnalysis busy_ctx 44101) = INIT_GAIN_ANALYSIS_ERROR
   \<and> lstepbuf (snd (WAInitGainAnalysis busy_ctx 44101)) 9 = 0
   \<and> lstepbuf (snd (WAInitGainAnalysis busy_ctx 44101)) 10 = 1
   \<and> sampleWindow (snd (WAInitGainAnalysis busy_ctx 44101)) = 400
   \<and> B (snd (WAInitGainAnalysis busy_ctx 44101)) 5 = 1"
proof -
  have h1: "sint (44101 :: 32 word) \<notin>
     {8000, 11025, 12000, 16000, 22050, 24000, 32000, 44100, 48000, 64000, 88200, 96000}"
    by simp
  have h2: "WAInitGainAnalysis busy_ctx 44101
              = (fst (WAInitGainAnalysis busy_ctx 44101), snd (WAInitGainAnalysis busy_ctx 44101))"
    by simp
  from rejected_rate_effects [OF h1 h2]
  have "fst (WAInitGainAnalysis busy_ctx 44101) = INIT_GAIN_ANALYSIS_ERROR"
    and "lstepbuf (snd (WAInitGainAnalysis busy_ctx 44101)) 9 = 0"
    and "lstepbuf (snd (WAInitGainAnalysis busy_ctx 44101)) 10 = lstepbuf busy_ctx 10"
    and "sampleWindow (snd (WAInitGainAnalysis busy_ctx 44101)) = sampleWindow busy_ctx"
    and "B (snd (WAInitGainAnalysis busy_ctx 44101)) = B busy_ctx"
    by simp_all
  then show ?thesis
    using h1 by (simp add: busy_ctx_def no_counts_def unit_pulse_def)
qed

section \<open>Binary64 rounding of the two products\<close>

lemma pow2_pos: "0 < pow2 e"
  by (simp add: pow2_def)

lemma pow2_powr: "pow2 e = 2 powr (of_int e)"
proof (cases "0 \<le> e")
  case True
  then show ?thesis
    by (simp add: pow2_def powr_realpow [symmetric])
next
  case False
  then have "2 powr (of_int e) = 1 / 2 powr (real (nat (- e)))"
    by (simp add: powr_minus_divide [symmetric])
  with False show ?thesis
    by (simp add: pow2_def powr_realpow [symmetric])
qed

lemma binade_lower:
  assumes "1 / 2 ^ 64 \<le> a"
  shows "pow2 (binade a) \<le> a"
proof -
  let ?k = "nat \<lfloor>a * 2 ^ 64\<rfloor>"
  have a1: "1 \<le> a * 2 ^ 64" using assms by (simp add: field_simps)
  then have kpos: "0 < ?k" by simp
  have fl1: "1 \<le> floorlog 2 ?k"
    using kpos by (simp add: floorlog_def)
  have "2 ^ (floorlog 2 ?k - 1) \<le> ?k"
    using floorlog_bounds [OF kpos, of 2] by simp
  then have "(2::real) ^ (floorlog 2 ?k - 1) \<le> real ?k"
    by (metis of_nat_le_iff of_nat_numeral of_nat_power)
  also have "real ?k \<le> a * 2 ^ 64"
    using a1 by simp
  finally have le: "(2::real) ^ (floorlog 2 ?k - 1) \<le> a * 2 ^ 64" .
  have "pow2 (binade a) = 2 powr (real (floorlog 2 ?k - 1) - 64)"
    using fl1 by (simp add: pow2_powr binade_def of_nat_diff)
  also have "\<dots> = 2 ^ (floorlog 2 ?k - 1) / 2 ^ 64"
    by (simp add: powr_diff powr_realpow)
  also have "\<dots> \<le> a"
    using le by (simp add: field_simps)
  finally show ?thesis .
qed

lemma round_half_even_close: "\<bar>of_int (round_half_even q) - q\<bar> \<le> 1 / 2"
  unfolding round_half_even_def Let_def
  by (auto simp: abs_if) linarith+

lemma round_double_close:
  assumes "1 / 2 ^ 64 \<le> x"
  shows "\<bar>round_double x - x\<bar> \<le> x / 2 ^ 53"
proof -
  have xpos: "0 < x" using assms by (smt (verit) divide_pos_pos zero_less_power)
  define u where "u = pow2 (binade x - 52)"
  have upos: "0 < u" by (simp add: u_def pow2_pos)
  have "u = pow2 (binade x) / 2 ^ 52"
    by (simp add: u_def pow2_powr powr_diff)
  with binade_lower [OF assms] have ule: "u \<le> x / 2 ^ 52"
    by (simp add: field_simps)
  define m where "m = round_half_even (x / u)"
  have rd: "round_double x = of_int m * u"
    using xpos by (simp add: round_double_def Let_def u_def m_def)
  have "\<bar>of_int m - x / u\<bar> \<le> 1 / 2"
    unfolding m_def by (rule round_half_even_close)
  then have "\<bar>of_int m - x / u\<bar> * u \<le> 1 / 2 * u"
    using upos by (intro mult_right_mono) simp_all
  moreover have "\<bar>of_int m - x / u\<bar> * u = \<bar>of_int m * u - x\<bar>"
    using upos by (simp add: abs_mult_pos' field_simps flip: abs_mult)
  ultimately have "\<bar>of_int m * u - x\<bar> \<le> u / 2" by simp
  also have "u / 2 \<le> x / 2 ^ 53" using ule by simp
  finally show ?thesis by (simp add: rd)
qed

lemma percentile_factor: "1 - RMS_PERCENTILE = (1 + 1 / 2 ^ 50) / 20"
  by (simp add: RMS_PERCENTILE_def)

lemma ceil_round_percentile:
  assumes "0 < n" "n < 2 ^ 32"
  shows "\<lceil>round_double (real n * (1 - RMS_PERCENTILE))\<rceil> = int (n div 20) + 1"
proof -
  define k where "k = n div 20"
  define r where "r = n mod 20"
  define x where "x = real n * (1 - RMS_PERCENTILE)"
  have "n = 20 * k + r" by (simp add: k_def r_def)
  then have "real n = real (20 * k + r)" by simp
  then have n: "real n = 20 * real k + real r" by simp
  have "r < 20" by (simp add: r_def)
  then have r: "real r \<le> 19" by simp
  have "real n < real (2 ^ 32)" using assms(2) by (simp only: of_nat_less_iff)
  then have nlt: "real n < 2 ^ 32" by simp
  have npos: "1 \<le> real n" using assms(1) by simp
  have xeq: "x = (20 * real k + real r) * (225179981368525 / 4503599627370496)"
    by (simp add: x_def percentile_factor n)
  have xlow: "1 / 2 ^ 64 \<le> x"
    using npos unfolding x_def percentile_factor by simp
  have "\<bar>round_double x - x\<bar> \<le> x / 2 ^ 53"
    by (rule round_double_close [OF xlow])
  then have "\<bar>round_double x - x\<bar> \<le> x / 9007199254740992"
    by simp
  then have close: "x - x / 9007199254740992 \<le> round_double x"
    "round_double x \<le> x + x / 9007199254740992"
    by linarith+
  have k0: "0 \<le> real k" by simp
  have r0: "0 \<le> real r" by simp
  have n1: "1 \<le> 20 * real k + real r" using npos n by simp
  have n2: "20 * real k + real r < 4294967296" using nlt n by simp
  have x1: "4503599627370496 * x = 4503599627370500 * real k + 225179981368525 * real r"
    unfolding xeq by simp
  have c1: "9007199254740991 * x \<le> 9007199254740992 * round_double x"
    using close(1) by simp
  have c2: "9007199254740992 * round_double x \<le> 9007199254740993 * x"
    using close(2) by simp
  have lo: "real k < round_double x"
    using c1 x1 n1 k0 r0 by linarith
  have hi: "round_double x \<le> real k + 1"
    using c2 x1 n2 r k0 r0 by linarith
  have "\<lceil>round_double x\<rceil> = int k + 1"
    using lo hi by (intro ceiling_unique) simp_all
  then show ?thesis by (simp add: x_def k_def)
qed

section \<open>The percentile scan\<close>

lemma sum_elems_Suc: "sum_elems Array (Suc n) = sum_elems Array n + Array n"
  by (simp add: sum_elems_def)

lemma sum_elems_total: "sum_elems Array len = of_nat (spec_total (counts Array) len)"
  by (induction len) (simp_all add: sum_elems_Suc spec_total_def counts_def, simp add: sum_elems_def)

lemma sint_small:
  "- (2 ^ 31) \<le> x \<Longrightarrow> x < 2 ^ 31 \<Longrightarrow> sint (word_of_int x :: 32 word) = x"
  by (simp add: sint_sbintrunc' signed_take_bit_int_eq_self)

lemma word_of_int_minus_count:
  "(word_of_int U :: 32 word) - w = word_of_int (U - int (unat w))"
  by simp

lemma scan_down_walk:
  "U < 2 ^ 31 \<Longrightarrow> - (2 ^ 31) < U - int (spec_total (counts Array) n) \<Longrightarrow>
   scan_down Array n (word_of_int U) = spec_walk (counts Array) n U"
proof (induction n arbitrary: U)
  case 0
  show ?case by simp
next
  case (Suc n)
  let ?U' = "U - int (unat (Array n))"
  have tot: "spec_total (counts Array) (Suc n) = spec_total (counts Array) n + unat (Array n)"
    by (simp add: spec_total_def counts_def)
  have lo: "- (2 ^ 31) < ?U' - int (spec_total (counts Array) n)"
    using Suc.prems(2) unfolding tot by linarith
  have hi: "?U' < 2 ^ 31"
    using Suc.prems(1) of_nat_0_le_iff [of "unat (Array n)", where ?'a = int] by linarith
  have lo': "- (2 ^ 31) \<le> ?U'" using lo by linarith
  have e: "word_of_int U - Array n = (word_of_int ?U' :: 32 word)"
    by (rule word_of_int_minus_count)
  have s: "sint (word_of_int ?U' :: 32 word) = ?U'"
    by (rule sint_small [OF lo' hi])
  have "scan_down Array (Suc n) (word_of_int U)
          = (if ?U' \<le> 0 then Some n else spec_walk (counts Array) n ?U')"
    by (simp only: scan_down.simps s e Suc.IH [OF hi lo])
  also have "\<dots> = spec_walk (counts Array) (Suc n) U"
    by (simp add: counts_def)
  finally show ?case .
qed

lemma spec_walk_stops:
  "t \<le> int (spec_total h n) \<Longrightarrow> 0 < n \<Longrightarrow> \<exists>i<n. spec_walk h n t = Some i"
proof (induction n arbitrary: t)
  case 0
  then show ?case by simp
next
  case (Suc n)
  have tot: "spec_total h (Suc n) = spec_total h n + h n"
    by (simp add: spec_total_def)
  show ?case
  proof (cases "t - int (h n) \<le> 0")
    case True
    then show ?thesis by auto
  next
    case False
    then have pos: "0 < t - int (h n)" by simp
    have le: "t - int (h n) \<le> int (spec_total h n)"
      using Suc.prems(1) tot by simp
    have "0 < n"
    proof (rule ccontr)
      assume "\<not> 0 < n"
      then have "spec_total h n = 0" by (simp add: spec_total_def)
      with le pos show False by simp
    qed
    from Suc.IH [OF le this] obtain i where "i < n" "spec_walk h n (t - int (h n)) = Some i"
      by blast
    with False show ?thesis by (auto intro: exI [of _ i])
  qed
qed

lemma upper_of_total:
  assumes "0 < T" "T < 2 ^ 32"
  shows "upper_of (of_nat T) = word_of_int (int (T div 20) + 1)"
proof -
  have "unat (of_nat T :: 32 word) = T"
    using assms(2) by (simp add: of_nat_inverse)
  then show ?thesis
    using ceil_round_percentile [OF assms] by (simp add: upper_of_def)
qed

lemma analyzeResult_walk:
  assumes "spec_total (counts Array) len < 2 ^ 31"
  shows "analyzeResult s Array len =
     (if spec_total (counts Array) len = 0 then s
      else case spec_walk (counts Array) len (int (spec_total (counts Array) len div 20) + 1) of
             Some i \<Rightarrow> PINK_REF - real i / STEPS_per_dB
           | None \<Rightarrow> PINK_REF - real SIZE_MAX / STEPS_per_dB)"
proof (cases "spec_total (counts Array) len = 0")
  case True
  then show ?thesis by (simp add: analyzeResult_def sum_elems_total)
next
  case False
  let ?T = "spec_total (counts Array) len"
  have T32: "?T < 2 ^ 32" using assms by (rule less_trans) simp
  have Tpos: "0 < ?T" using False by simp
  have ne: "(of_nat ?T :: 32 word) \<noteq> 0"
  proof
    assume "(of_nat ?T :: 32 word) = 0"
    then have "2 ^ 32 dvd ?T" by (simp add: word_of_nat_eq_0_iff)
    with nat_dvd_not_less [OF Tpos T32] show False by simp
  qed
  have T31: "?T < 2147483648" using assms by simp
  have "int (?T div 20) + 1 < 2147483648" using T31 by linarith
  then have U1: "int (?T div 20) + 1 < 2 ^ 31" by simp
  have "- 2147483648 < int (?T div 20) + 1 - int ?T" using T31 by linarith
  then have U2: "- (2 ^ 31) < int (?T div 20) + 1 - int ?T" by simp
  show ?thesis
    using False ne scan_down_walk [OF U1 U2]
    by (simp add: analyzeResult_def sum_elems_total Let_def upper_of_total [OF Tpos T32])
qed

lemma spec_threshold_not_dvd:
  assumes "\<not> 20 dvd T"
  shows "spec_threshold T = int (T div 20) + 1"
proof -
  define k where "k = T div 20"
  define r where "r = T mod 20"
  have "T = 20 * k + r" by (simp add: k_def r_def)
  then have "real T = real (20 * k + r)" by simp
  then have T: "real T = 20 * real k + real r" by simp
  have "0 < r" using assms by (simp add: r_def dvd_eq_mod_eq_0)
  then have r1: "1 \<le> real r" by simp
  have "r < 20" by (simp add: r_def)
  then have r2: "real r \<le> 19" by simp
  have "\<lceil>real T * 0.05\<rceil> = int k + 1"
    using r1 r2 unfolding T by (intro ceiling_unique) simp_all
  then show ?thesis by (simp add: spec_threshold_def k_def)
qed

lemma spec_total_zero: "spec_total (\<lambda>_. 0) n = 0"
  by (simp add: spec_total_def)

lemma spec_total_upd:
  "k < n \<Longrightarrow> spec_total (h(k := v)) n = spec_total h n - h k + v"
proof -
  assume k: "k < n"
  have fin: "finite {..<n}" by simp
  have kin: "k \<in> {..<n}" using k by simp
  have a: "(\<Sum>i<n. (h(k := v)) i) = v + (\<Sum>i\<in>{..<n} - {k}. (h(k := v)) i)"
    using sum.remove [OF fin kin, of "h(k := v)"] by simp
  have b: "(\<Sum>i<n. h i) = h k + (\<Sum>i\<in>{..<n} - {k}. h i)"
    using sum.remove [OF fin kin, of h] by simp
  have c: "(\<Sum>i\<in>{..<n} - {k}. (h(k := v)) i) = (\<Sum>i\<in>{..<n} - {k}. h i)"
    by (rule sum.cong) simp_all
  show ?thesis unfolding spec_total_def a b c by simp
qed

lemma counts_upd: "counts (Array(k := v)) = (counts Array)(k := unat v)"
  by (simp add: counts_def fun_eq_iff)

lemma counts_no_counts: "counts no_counts = (\<lambda>_. 0)"
  by (simp add: counts_def no_counts_def)

lemma spec_walk_skip:
  "(\<And>i. k \<le> i \<Longrightarrow> i < n \<Longrightarrow> h i = 0) \<Longrightarrow> k \<le> n \<Longrightarrow> 0 < t \<Longrightarrow>
   spec_walk h n t = spec_walk h k t"
proof (induction n)
  case 0
  then show ?case by simp
next
  case (Suc n)
  show ?case
  proof (cases "k = Suc n")
    case True
    then show ?thesis by simp
  next
    case False
    then have kn: "k \<le> n" using Suc.prems(2) by simp
    have "h n = 0" using Suc.prems(1) [of n] kn by simp
    then have "spec_walk h (Suc n) t = spec_walk h n t"
      using Suc.prems(3) by simp
    also have "\<dots> = spec_walk h k t"
      using Suc.IH [OF _ kn Suc.prems(3)] Suc.prems(1) by simp
    finally show ?thesis .
  qed
qed

lemma twenty_total: "spec_total (counts twenty_windows) 12000 = 20"
  by (simp add: twenty_windows_def counts_upd counts_no_counts spec_total_upd spec_total_zero)

lemma spec_walk_step:
  "0 < n \<Longrightarrow> spec_walk h n t =
     (if t - int (h (n - 1)) \<le> 0 then Some (n - 1) else spec_walk h (n - 1) (t - int (h (n - 1))))"
  by (cases n) simp_all

lemma twenty_walk:
  "0 < t \<Longrightarrow> spec_walk (counts twenty_windows) 12000 t
     = (if t \<le> 1 then Some 6000 else if t \<le> 20 then Some 5000 else None)"
proof -
  assume t: "0 < t"
  let ?h = "counts twenty_windows"
  have h: "?h = (\<lambda>i. if i = 6000 then 1 else if i = 5000 then 19 else 0)"
    by (simp add: twenty_windows_def counts_def no_counts_def fun_eq_iff)
  have a: "spec_walk ?h 12000 t = spec_walk ?h 6001 t"
    by (rule spec_walk_skip) (simp_all add: h t)
  have a': "spec_walk ?h 6001 t = (if t \<le> 1 then Some 6000 else spec_walk ?h 6000 (t - 1))"
    using spec_walk_step [of 6001 ?h t] by (simp add: h)
  have b: "0 < t' \<Longrightarrow> spec_walk ?h 6000 t' = spec_walk ?h 5001 t'" for t'
    by (rule spec_walk_skip) (simp_all add: h)
  have b': "spec_walk ?h 5001 t' = (if t' \<le> 19 then Some 5000 else spec_walk ?h 5000 (t' - 19))" for t'
    using spec_walk_step [of 5001 ?h t'] by (simp add: h)
  have c: "0 < t' \<Longrightarrow> spec_walk ?h 5000 t' = None" for t'
    using spec_walk_skip [of 0 5000 ?h t'] by (simp add: h)
  show ?thesis
  proof (cases "t \<le> 1")
    case True
    then show ?thesis by (simp add: a a')
  next
    case False
    then have t1: "0 < t - 1" by simp
    show ?thesis
    proof (cases "t \<le> 20")
      case True
      with False show ?thesis by (simp add: a a' b [OF t1] b')
    next
      case False
      then have "0 < t - 1 - 19" by simp
      from c [OF this] False show ?thesis by (simp add: a a' b [OF t1] b')
    qed
  qed
qed

lemma twenty_code: "analyzeResult s twenty_windows 12000 = 14.82"
  using analyzeResult_walk [of twenty_windows 12000 s] twenty_walk [of 2]
  by (simp add: twenty_total PINK_REF_def STEPS_per_dB_def)

lemma twenty_spec: "spec_percentile_gain s (counts twenty_windows) 12000 = Some 4.82"
  using twenty_walk [of 1]
  by (simp add: spec_percentile_gain_def twenty_total spec_threshold_def)

lemma scan_down_skip:
  "(\<And>i. k \<le> i \<Longrightarrow> i < n \<Longrightarrow> Array i = 0) \<Longrightarrow> k \<le> n \<Longrightarrow> 0 < sint u \<Longrightarrow>
   scan_down Array n u = scan_down Array k u"
proof (induction n)
  case 0
  then show ?case by simp
next
  case (Suc n)
  show ?case
  proof (cases "k = Suc n")
    case True
    then show ?thesis by simp
  next
    case False
    then have kn: "k \<le> n" using Suc.prems(2) by simp
    have "Array n = 0" using Suc.prems(1) [of n] kn by simp
    then have "scan_down Array (Suc n) u = scan_down Array n u"
      using Suc.prems(3) by simp
    also have "\<dots> = scan_down Array k u"
      using Suc.IH [OF _ kn Suc.prems(3)] Suc.prems(1) by simp
    finally show ?thesis .
  qed
qed

lemma saturated_total: "spec_total (counts saturated) 12000 = 4294967295"
  by (simp add: saturated_def counts_upd counts_no_counts spec_total_upd spec_total_zero)

lemma saturated_scan: "scan_down saturated 12000 214748365 = None"
proof -
  have a: "scan_down saturated 12000 214748365 = scan_down saturated 1 214748365"
    by (rule scan_down_skip) (simp_all add: saturated_def no_counts_def)
  have b: "scan_down saturated (Suc 0) 214748365 = None"
    by (simp add: saturated_def)
  show ?thesis using a b by simp
qed

lemma saturated_code: "analyzeResult s saturated 12000 = - 42949608.13"
proof -
  have e: "sum_elems saturated 12000 = of_nat 4294967295"
    by (simp only: sum_elems_total saturated_total)
  have u: "upper_of (of_nat 4294967295) = 214748365"
    using upper_of_total [of 4294967295] by simp
  have ne: "(of_nat 4294967295 :: 32 word) \<noteq> 0" by simp
  show ?thesis
    unfolding analyzeResult_def Let_def e u using ne
    by (simp add: saturated_scan PINK_REF_def SIZE_MAX_def STEPS_per_dB_def)
qed

lemma hist_len: "HIST_LEN = 12000"
  by (simp add: HIST_LEN_def STEPS_per_dB_def MAX_dB_def)

lemma title_gain_eq: "fst (WAGetTitleGain s rg) = analyzeResult s (A rg) 12000"
  by (simp add: WAGetTitleGain_def Let_def hist_len)

lemma album_gain_eq: "WAGetAlbumGain s rg = analyzeResult s (B rg) 12000"
  by (simp add: WAGetAlbumGain_def hist_len)

lemma analyzeResult_range:
  assumes "spec_total (counts Array) 12000 < 2 ^ 31" "analyzeResult s Array 12000 \<noteq> s"
  shows "\<exists>i<12000. scan_down Array 12000 (upper_of (sum_elems Array 12000)) = Some i
           \<and> analyzeResult s Array 12000 = 64.82 - real i / 100
           \<and> 64.82 - 119.99 \<le> analyzeResult s Array 12000
           \<and> analyzeResult s Array 12000 \<le> 64.82"
proof -
  let ?T = "spec_total (counts Array) 12000"
  have T0: "?T \<noteq> 0"
  proof
    assume "?T = 0"
    then have "analyzeResult s Array 12000 = s"
      using analyzeResult_walk [OF assms(1), of s] by simp
    with assms(2) show False by simp
  qed
  then have Tpos: "0 < ?T" by simp
  have T32: "?T < 2 ^ 32" using assms(1) by (rule less_trans) simp
  have T31: "?T < 2147483648" using assms(1) by simp
  have "int (?T div 20) + 1 < 2147483648" using T31 by linarith
  then have U1: "int (?T div 20) + 1 < 2 ^ 31" by simp
  have "- 2147483648 < int (?T div 20) + 1 - int ?T" using T31 by linarith
  then have U2: "- (2 ^ 31) < int (?T div 20) + 1 - int ?T" by simp
  have le: "int (?T div 20) + 1 \<le> int ?T" using Tpos by linarith
  from spec_walk_stops [OF le] obtain i where i: "i < 12000"
    and w: "spec_walk (counts Array) 12000 (int (?T div 20) + 1) = Some i" by auto
  have sc: "scan_down Array 12000 (upper_of (sum_elems Array 12000)) = Some i"
    using scan_down_walk [OF U1 U2] w
    by (simp add: sum_elems_total upper_of_total [OF Tpos T32])
  have r: "analyzeResult s Array 12000 = 64.82 - real i / 100"
    using analyzeResult_walk [OF assms(1), of s] T0 w
    by (simp add: PINK_REF_def STEPS_per_dB_def)
  have "real i \<le> 11999" using i by simp
  then have "64.82 - 119.99 \<le> 64.82 - real i / 100" "64.82 - real i / 100 \<le> 64.82"
    by simp_all
  with sc r i show ?thesis by auto
qed

lemma single_bucket_walk:
  assumes "k < n" "0 < t" "t \<le> int v"
  shows "spec_walk ((\<lambda>_. 0)(k := v)) n t = Some k"
proof -
  have "spec_walk ((\<lambda>_. 0)(k := v)) n t = spec_walk ((\<lambda>_. 0)(k := v)) (Suc k) t"
    using assms(1,2) by (intro spec_walk_skip) simp_all
  also have "\<dots> = Some k" using assms(3) by simp
  finally show ?thesis .
qed

lemma single_bucket_result:
  assumes "k < 12000" "0 < unat v" "unat v < 2 ^ 31"
  shows "analyzeResult s (no_counts(k := v)) 12000 = 64.82 - real k / 100"
proof -
  have tot: "spec_total (counts (no_counts(k := v))) 12000 = unat v"
    using assms(1) by (simp add: counts_upd counts_no_counts spec_total_upd spec_total_zero)
  have "int (unat v div 20) + 1 \<le> int (unat v)" using assms(2) by linarith
  from single_bucket_walk [OF assms(1) _ this]
  have "spec_walk (counts (no_counts(k := v))) 12000 (int (unat v div 20) + 1) = Some k"
    by (simp add: counts_upd counts_no_counts)
  then show ?thesis
    using analyzeResult_walk [of "no_counts(k := v)" 12000 s] assms(2,3)
    by (simp add: tot PINK_REF_def STEPS_per_dB_def)
qed

lemma busy_title_total: "spec_total (counts (A busy_ctx)) 12000 = 3"
  by (simp add: busy_ctx_def counts_upd counts_no_counts spec_total_upd spec_total_zero)

lemma busy_album_total: "spec_total (counts (B busy_ctx)) 12000 = 1"
  by (simp add: busy_ctx_def counts_upd counts_no_counts spec_total_upd spec_total_zero)

lemma busy_title_gain: "fst (WAGetTitleGain s busy_ctx) = 64.77"
  using single_bucket_result [of 5 3 s] by (simp add: title_gain_eq busy_ctx_def)

lemma busy_album_gain: "WAGetAlbumGain s busy_ctx = 64.77"
  using single_bucket_result [of 5 1 s] by (simp add: album_gain_eq busy_ctx_def)

text \<open>
  C10, as stated, fails when the counts are large enough for the 32-bit arithmetic of the
  scan to wrap: with 4294967295 windows in bucket 0 the running value
  \<^verbatim>\<open>upper -= Array[0]\<close> wraps to a positive number, the loop runs out without a
  \<^verbatim>\<open>break\<close>, \<open>i\<close> is left at \<open>SIZE_MAX\<close>, and the value returned is neither the
  sentinel nor within the range.
\<close>

theorem saturated_histogram_leaves_range:
  "scan_down saturated 12000 (upper_of (sum_elems saturated 12000)) = None
   \<and> fst (WAGetTitleGain (- 24601) (busy_ctx\<lparr>A := saturated\<rparr>)) = - 42949608.13
   \<and> (- 42949608.13 :: real) \<noteq> - 24601
   \<and> (- 42949608.13 :: real) < 64.82 - 119.99"
proof -
  have e: "sum_elems saturated 12000 = 4294967295"
    by (simp add: sum_elems_total saturated_total)
  have u: "upper_of 4294967295 = 214748365"
    using upper_of_total [of 4294967295] by simp
  show ?thesis
    by (simp add: e u saturated_scan title_gain_eq saturated_code)
qed

text \<open>
  C10, amended. Whenever the counts of the histogram sum to less than \<open>2 ^ 31\<close> and
  \<^verbatim>\<open>WAGetTitleGain\<close> or \<^verbatim>\<open>WAGetAlbumGain\<close> returns a value other than the sentinel,
  the scan stops at a bucket index \<open>i\<close> below 12000, the value is \<open>64.82 - i / 100\<close>,
  and it lies between \<open>64.82 - 119.99\<close> and \<open>64.82\<close>.
\<close>

theorem gain_result_range:
  "(spec_total (counts (A rg)) 12000 < 2 ^ 31 \<longrightarrow> fst (WAGetTitleGain s rg) \<noteq> s \<longrightarrow>
      (\<exists>i<12000. scan_down (A rg) 12000 (upper_of (sum_elems (A rg) 12000)) = Some i
           \<and> fst (WAGetTitleGain s rg) = 64.82 - real i / 100)
      \<and> 64.82 - 119.99 \<le> fst (WAGetTitleGain s rg) \<and> fst (WAGetTitleGain s rg) \<le> 64.82)
   \<and> (spec_total (counts (B rg)) 12000 < 2 ^ 31 \<longrightarrow> WAGetAlbumGain s rg \<noteq> s \<longrightarrow>
      (\<exists>i<12000. scan_down (B rg) 12000 (upper_of (sum_elems (B rg) 12000)) = Some i
           \<and> WAGetAlbumGain s rg = 64.82 - real i / 100)
      \<and> 64.82 - 119.99 \<le> WAGetAlbumGain s rg \<and> WAGetAlbumGain s rg \<le> 64.82)"
  using analyzeResult_range [of "A rg" s] analyzeResult_range [of "B rg" s]
  unfolding title_gain_eq album_gain_eq by blast

theorem gain_result_range_witness:
  "spec_total (counts (A busy_ctx)) 12000 < 2 ^ 31
   \<and> fst (WAGetTitleGain (- 24601) busy_ctx) \<noteq> - 24601
   \<and> spec_total (counts (B busy_ctx)) 12000 < 2 ^ 31
   \<and> WAGetAlbumGain (- 24601) busy_ctx \<noteq> - 24601
   \<and> 64.82 - 119.99 \<le> fst (WAGetTitleGain (- 24601) busy_ctx)
   \<and> fst (WAGetTitleGain (- 24601) busy_ctx) \<le> 64.82
   \<and> 64.82 - 119.99 \<le> WAGetAlbumGain (- 24601) busy_ctx
   \<and> WAGetAlbumGain (- 24601) busy_ctx \<le> 64.82"
proof -
  have h1: "spec_total (counts (A busy_ctx)) 12000 < 2 ^ 31"
    by (simp add: busy_title_total)
  have h2: "fst (WAGetTitleGain (- 24601) busy_ctx) \<noteq> - 24601"
    by (simp add: busy_title_gain)
  have h3: "spec_total (counts (B busy_ctx)) 12000 < 2 ^ 31"
    by (simp add: busy_album_total)
  have h4: "WAGetAlbumGain (- 24601) busy_ctx \<noteq> - 24601"
    by (simp add: busy_album_gain)
  from gain_result_range [of busy_ctx "- 24601"] h1 h2 h3 h4
  show ?thesis by blast
qed

lemma analyzeResult_spec:
  assumes "spec_total (counts Array) 12000 < 2 ^ 31" "\<not> 20 dvd spec_total (counts Array) 12000"
  shows "spec_percentile_gain s (counts Array) 12000 = Some (analyzeResult s Array 12000)"
proof -
  let ?T = "spec_total (counts Array) 12000"
  have Tpos: "0 < ?T" using assms(2) by (cases "?T = 0") simp_all
  have le: "int (?T div 20) + 1 \<le> int ?T" using Tpos by linarith
  from spec_walk_stops [OF le] obtain i where i: "i < 12000"
    and w: "spec_walk (counts Array) 12000 (int (?T div 20) + 1) = Some i" by auto
  show ?thesis
    using analyzeResult_walk [OF assms(1), of s] Tpos w
    by (simp add: spec_percentile_gain_def spec_threshold_not_dvd [OF assms(2)]
        PINK_REF_def STEPS_per_dB_def)
qed

text \<open>
  Where the code leaves \<open>ceil(total * 0.05)\<close>: it multiplies by
  \<^verbatim>\<open>1. - RMS_PERCENTILE\<close>, which in binary64 is \<open>(1 + 2 ^ -50) / 20\<close>, a little more than
  0.05, so for twenty windows \<^verbatim>\<open>ceil\<close> yields 2 where \<open>ceil(20 * 0.05)\<close> is 1: the scan
  passes the single loudest window and stops at bucket 5000 instead of bucket 6000. The
  same happens for every total that is a multiple of 20.
\<close>

lemma twenty_windows_threshold_is_two:
  "upper_of 20 = 2
   \<and> spec_threshold 20 = 1
   \<and> fst (WAGetTitleGain (- 24601) (busy_ctx\<lparr>A := twenty_windows\<rparr>)) = 14.82
   \<and> spec_percentile_gain (- 24601) (counts twenty_windows) 12000 = Some 4.82"
proof -
  have "upper_of (of_nat 20) = word_of_int (int (20 div 20) + 1)"
    by (rule upper_of_total) simp_all
  then have "upper_of 20 = 2" by simp
  then show ?thesis
    by (simp add: title_gain_eq twenty_code twenty_spec spec_threshold_def)
qed

lemma spec_walk_top:
  assumes "k < n" "\<And>i. k < i \<Longrightarrow> i < n \<Longrightarrow> h i = 0" "0 < t"
  shows "spec_walk h n t
           = (if t - int (h k) \<le> 0 then Some k else spec_walk h k (t - int (h k)))"
proof -
  have "spec_walk h n t = spec_walk h (Suc k) t"
    using assms by (intro spec_walk_skip) simp_all
  then show ?thesis by simp
qed

lemma spec_walk_none:
  assumes "\<And>i. i < n \<Longrightarrow> h i = 0" "0 < t"
  shows "spec_walk h n t = None"
  using spec_walk_skip [of 0 n h t] assms by simp

lemma thirty_walk: "spec_walk (counts thirty_windows) 12000 2 = Some 5500"
proof -
  let ?h = "counts thirty_windows"
  have h: "?h = (\<lambda>i. if i = 6000 then 1 else if i = 5500 then 1 else if i = 5000 then 28 else 0)"
    by (simp add: thirty_windows_def counts_def no_counts_def fun_eq_iff)
  have a: "spec_walk ?h 12000 2 = spec_walk ?h 6000 1"
    using spec_walk_top [of 6000 12000 ?h 2] by (simp add: h)
  have b: "spec_walk ?h 6000 1 = Some 5500"
    using spec_walk_top [of 5500 6000 ?h 1] by (simp add: h)
  show ?thesis by (simp only: a b)
qed

lemma thirty_total: "spec_total (counts thirty_windows) 12000 = 30"
  by (simp add: thirty_windows_def counts_upd counts_no_counts spec_total_upd spec_total_zero)

lemma thirty_spec: "spec_percentile_gain s (counts thirty_windows) 12000 = Some 9.82"
proof -
  have "spec_threshold 30 = 2"
    unfolding spec_threshold_def by (intro ceiling_unique) simp_all
  then show ?thesis
    by (simp add: spec_percentile_gain_def thirty_total thirty_walk)
qed

lemma forty_one_walk: "spec_walk (counts forty_one_windows) 12000 3 = Some 5000"
proof -
  let ?h = "counts forty_one_windows"
  have h: "?h = (\<lambda>i. if i = 6000 then 1 else if i = 5000 then 40 else 0)"
    by (simp add: forty_one_windows_def counts_def no_counts_def fun_eq_iff)
  have a: "spec_walk ?h 12000 3 = spec_walk ?h 6000 2"
    using spec_walk_top [of 6000 12000 ?h 3] by (simp add: h)
  have b: "spec_walk ?h 6000 2 = Some 5000"
    using spec_walk_top [of 5000 6000 ?h 2] by (simp add: h)
  show ?thesis by (simp only: a b)
qed

lemma forty_one_total: "spec_total (counts forty_one_windows) 12000 = 41"
  by (simp add: forty_one_windows_def counts_upd counts_no_counts spec_total_upd spec_total_zero)

lemma forty_one_spec: "spec_percentile_gain s (counts forty_one_windows) 12000 = Some 14.82"
proof -
  have "spec_threshold 41 = 3"
    unfolding spec_threshold_def by (intro ceiling_unique) simp_all
  then show ?thesis
    by (simp add: spec_percentile_gain_def forty_one_total forty_one_walk)
qed

lemma wrapped_total: "spec_total (counts wrapped_sum) 12000 = 4294967296"
  by (simp add: wrapped_sum_def counts_upd counts_no_counts spec_total_upd spec_total_zero)

lemma wrapped_spec: "spec_percentile_gain s (counts wrapped_sum) 12000 = Some 4.82"
proof -
  let ?h = "counts wrapped_sum"
  have h: "?h = (\<lambda>i. if i = 6000 then 2147483648 else if i = 5000 then 2147483648 else 0)"
    by (simp add: wrapped_sum_def counts_def no_counts_def fun_eq_iff)
  have t: "spec_threshold 4294967296 = 214748365"
    unfolding spec_threshold_def by (intro ceiling_unique) simp_all
  have w: "spec_walk ?h 12000 214748365 = Some 6000"
    using spec_walk_top [of 6000 12000 ?h 214748365] by (simp add: h)
  show ?thesis
    by (simp add: spec_percentile_gain_def wrapped_total t w)
qed

text \<open>
  C2, as stated, fails when the counts no longer fit the 32-bit arithmetic of the code:
  \<^verbatim>\<open>elems\<close> is a \<^verbatim>\<open>Uint32_t\<close>, so for two buckets of \<open>2 ^ 31\<close> windows each it wraps
  to 0 and the query returns the sentinel, although the sum of the counts is \<open>2 ^ 32\<close>
  and the algorithm of the specification stops at bucket 6000.
\<close>

theorem wrapped_sum_gives_sentinel:
  "spec_total (counts wrapped_sum) 12000 = 4294967296
   \<and> sum_elems wrapped_sum 12000 = 0
   \<and> fst (WAGetTitleGain (- 24601) (busy_ctx\<lparr>A := wrapped_sum\<rparr>)) = - 24601
   \<and> spec_percentile_gain (- 24601) (counts wrapped_sum) 12000 = Some 4.82"
proof -
  have e: "sum_elems wrapped_sum 12000 = 0"
    by (simp add: sum_elems_total wrapped_total)
  then have "analyzeResult (- 24601) wrapped_sum 12000 = - 24601"
    by (simp add: analyzeResult_def)
  then show ?thesis
    by (simp add: e wrapped_total wrapped_spec title_gain_eq)
qed

text \<open>
  C2, amended. For every histogram whose counts sum to less than \<open>2 ^ 31\<close> and not to
  a multiple of 20, both queries return what the percentile algorithm of the
  specification returns: \<open>64.82 - i / 100\<close> for the index \<open>i\<close> at which the running
  value, started at \<open>ceil(total * 0.05)\<close> and reduced by each count from the highest index
  downward, first drops to zero or below. When the sum is 0 both queries return the
  sentinel.
\<close>

theorem percentile_gain_matches_spec:
  "(spec_total (counts (A rg)) 12000 < 2 ^ 31 \<longrightarrow> \<not> 20 dvd spec_total (counts (A rg)) 12000 \<longrightarrow>
      spec_percentile_gain s (counts (A rg)) 12000 = Some (fst (WAGetTitleGain s rg)))
   \<and> (spec_total (counts (B rg)) 12000 < 2 ^ 31 \<longrightarrow> \<not> 20 dvd spec_total (counts (B rg)) 12000 \<longrightarrow>
      spec_percentile_gain s (counts (B rg)) 12000 = Some (WAGetAlbumGain s rg))
   \<and> (spec_total (counts (A rg)) 12000 = 0 \<longrightarrow> fst (WAGetTitleGain s rg) = s)
   \<and> (spec_total (counts (B rg)) 12000 = 0 \<longrightarrow> WAGetAlbumGain s rg = s)"
  using analyzeResult_spec [of "A rg" s] analyzeResult_spec [of "B rg" s]
    analyzeResult_walk [of "A rg" 12000 s] analyzeResult_walk [of "B rg" 12000 s]
  unfolding title_gain_eq album_gain_eq by simp

theorem percentile_gain_matches_spec_witness:
  "spec_total (counts thirty_windows) 12000 < 2 ^ 31
   \<and> \<not> 20 dvd spec_total (counts thirty_windows) 12000
   \<and> spec_total (counts forty_one_windows) 12000 < 2 ^ 31
   \<and> \<not> 20 dvd spec_total (counts forty_one_windows) 12000
   \<and> spec_total (counts (A blank_ctx)) 12000 = 0
   \<and> spec_total (counts (B blank_ctx)) 12000 = 0
   \<and> spec_threshold (spec_total (counts thirty_windows) 12000) = 2
   \<and> spec_threshold (spec_total (counts forty_one_windows) 12000) = 3
   \<and> fst (WAGetTitleGain (- 24601)
             (busy_ctx\<lparr>A := thirty_windows, B := forty_one_windows\<rparr>)) = 9.82
   \<and> WAGetAlbumGain (- 24601)
             (busy_ctx\<lparr>A := thirty_windows, B := forty_one_windows\<rparr>) = 14.82
   \<and> fst (WAGetTitleGain (- 24601) blank_ctx) = - 24601
   \<and> WAGetAlbumGain (- 24601) blank_ctx = - 24601"
proof -
  let ?rg = "busy_ctx\<lparr>A := thirty_windows, B := forty_one_windows\<rparr>"
  have h1: "spec_total (counts (A ?rg)) 12000 < 2 ^ 31"
    and h2: "\<not> 20 dvd spec_total (counts (A ?rg)) 12000"
    by (simp_all add: thirty_total)
  have h3: "spec_total (counts (B ?rg)) 12000 < 2 ^ 31"
    and h4: "\<not> 20 dvd spec_total (counts (B ?rg)) 12000"
    by (simp_all add: forty_one_total)
  have h5: "spec_total (counts (A blank_ctx)) 12000 = 0"
    and h6: "spec_total (counts (B blank_ctx)) 12000 = 0"
    by (simp_all add: blank_ctx_def counts_no_counts spec_total_zero)
  have t2: "spec_threshold 30 = 2" "spec_threshold 41 = 3"
    unfolding spec_threshold_def by (intro ceiling_unique; simp)+
  from percentile_gain_matches_spec [of ?rg "- 24601"] h1 h2 h3 h4
  have "spec_percentile_gain (- 24601) (counts (A ?rg)) 12000
          = Some (fst (WAGetTitleGain (- 24601) ?rg))"
    and "spec_percentile_gain (- 24601) (counts (B ?rg)) 12000
          = Some (WAGetAlbumGain (- 24601) ?rg)"
    by blast+
  then have "fst (WAGetTitleGain (- 24601) ?rg) = 9.82"
    and "WAGetAlbumGain (- 24601) ?rg = 14.82"
    by (simp_all add: thirty_spec forty_one_spec)
  moreover from percentile_gain_matches_spec [of blank_ctx "- 24601"] h5 h6
  have "fst (WAGetTitleGain (- 24601) blank_ctx) = - 24601"
    and "WAGetAlbumGain (- 24601) blank_ctx = - 24601"
    by blast+
  ultimately show ?thesis
    using h5 h6 by (simp add: thirty_total forty_one_total t2)
qed

section \<open>The window sizes of the twelve rates\<close>

lemma binade_unique:
  assumes "2 ^ e \<le> a" "a < 2 ^ (Suc e)"
  shows "binade a = int e"
proof -
  let ?k = "nat \<lfloor>a * 2 ^ 64\<rfloor>"
  have lo: "(2::real) ^ (e + 64) \<le> a * 2 ^ 64"
    using assms(1) by (simp add: power_add)
  have hi: "a * 2 ^ 64 < 2 ^ (e + 65)"
    using assms(2) by (simp add: power_add)
  have "(2::int) ^ (e + 64) \<le> \<lfloor>a * 2 ^ 64\<rfloor>"
    using lo by (simp add: le_floor_iff)
  then have i: "int (2 ^ (e + 64)) \<le> \<lfloor>a * 2 ^ 64\<rfloor>" by simp
  then have "0 \<le> \<lfloor>a * 2 ^ 64\<rfloor>" by (rule order_trans [rotated]) simp
  then have klo: "2 ^ (e + 64) \<le> ?k"
    using i by (simp only: le_nat_iff)
  have "\<lfloor>a * 2 ^ 64\<rfloor> < (2::int) ^ (e + 65)"
    using hi by (simp add: floor_less_iff)
  then have khi: "?k < 2 ^ (e + 65)"
    by (simp add: nat_less_iff)
  have "e + 65 - 1 = e + 64" by simp
  then have "2 ^ (e + 65 - 1) \<le> ?k" using klo by (simp only:)
  then have "e + 65 \<le> floorlog 2 ?k"
    by (rule floorlog_geI) simp
  moreover have "floorlog 2 ?k \<le> e + 65"
    using khi by (intro floorlog_leI) simp_all
  ultimately have "floorlog 2 ?k = e + 65" by simp
  then show ?thesis by (simp add: binade_def)
qed

lemma round_half_even_near:
  assumes "\<bar>q - of_int m\<bar> < 1 / 2"
  shows "round_half_even q = m"
proof (cases "of_int m \<le> q")
  case True
  then have "\<lfloor>q\<rfloor> = m" using assms by (intro floor_unique) simp_all
  then show ?thesis using assms True by (simp add: round_half_even_def Let_def)
next
  case False
  then have "\<lfloor>q\<rfloor> = m - 1" using assms by (intro floor_unique) simp_all
  then show ?thesis using assms False by (simp add: round_half_even_def Let_def)
qed

lemma round_double_near:
  assumes "2 ^ e \<le> x" "x < 2 ^ Suc e" "e \<le> 52"
    and "\<bar>x * 2 ^ (52 - e) - of_int m\<bar> < 1 / 2"
  shows "round_double x = of_int m / 2 ^ (52 - e)"
proof -
  have xpos: "0 < x" using assms(1) by (rule less_le_trans [rotated]) simp
  have b: "binade x = int e" by (rule binade_unique [OF assms(1,2)])
  have u: "pow2 (int e - 52) = 1 / 2 ^ (52 - e)"
    using assms(3) by (simp add: pow2_def nat_diff_distrib')
  have q: "x / (1 / 2 ^ (52 - e)) = x * 2 ^ (52 - e)" by simp
  have r: "round_half_even (x * 2 ^ (52 - e)) = m"
    by (rule round_half_even_near [OF assms(4)])
  show ?thesis
    using xpos by (simp add: round_double_def Let_def b u r)
qed

lemma window_size_eval:
  assumes "2 ^ e \<le> of_int f * RMS_WINDOW_TIME" "of_int f * RMS_WINDOW_TIME < 2 ^ Suc e" "e \<le> 52"
    and "\<bar>of_int f * RMS_WINDOW_TIME * 2 ^ (52 - e) - of_int m\<bar> < 1 / 2"
    and "real_of_int w - 1 < of_int m / 2 ^ (52 - e)" "of_int m / 2 ^ (52 - e) \<le> real_of_int w"
  shows "window_size f = nat w"
proof -
  have "round_double (of_int f * RMS_WINDOW_TIME) = of_int m / 2 ^ (52 - e)"
    by (rule round_double_near [OF assms(1-4)])
  moreover have "\<lceil>of_int m / (2::real) ^ (52 - e)\<rceil> = w"
    using assms(5,6) by (intro ceiling_unique) simp_all
  ultimately show ?thesis by (simp add: window_size_def)
qed

lemma window_size_table:
  "window_size 8000 = 400" "window_size 11025 = 552" "window_size 12000 = 600"
  "window_size 16000 = 800" "window_size 22050 = 1103" "window_size 24000 = 1200"
  "window_size 32000 = 1600" "window_size 44100 = 2205" "window_size 48000 = 2400"
  "window_size 64000 = 3200" "window_size 88200 = 4410" "window_size 96000 = 4800"
proof -
  show "window_size 8000 = 400"
    using window_size_eval [of 8 8000 7036874417766400 400] by (simp add: RMS_WINDOW_TIME_def)
  show "window_size 11025 = 552"
    using window_size_eval [of 9 11025 4848846278492160 552] by (simp add: RMS_WINDOW_TIME_def)
  show "window_size 12000 = 600"
    using window_size_eval [of 9 12000 5277655813324800 600] by (simp add: RMS_WINDOW_TIME_def)
  show "window_size 16000 = 800"
    using window_size_eval [of 9 16000 7036874417766400 800] by (simp add: RMS_WINDOW_TIME_def)
  show "window_size 22050 = 1103"
    using window_size_eval [of 10 22050 4848846278492160 1103] by (simp add: RMS_WINDOW_TIME_def)
  show "window_size 24000 = 1200"
    using window_size_eval [of 10 24000 5277655813324800 1200] by (simp add: RMS_WINDOW_TIME_def)
  show "window_size 32000 = 1600"
    using window_size_eval [of 10 32000 7036874417766400 1600] by (simp add: RMS_WINDOW_TIME_def)
  show "window_size 44100 = 2205"
    using window_size_eval [of 11 44100 4848846278492160 2205] by (simp add: RMS_WINDOW_TIME_def)
  show "window_size 48000 = 2400"
    using window_size_eval [of 11 48000 5277655813324800 2400] by (simp add: RMS_WINDOW_TIME_def)
  show "window_size 64000 = 3200"
    using window_size_eval [of 11 64000 7036874417766400 3200] by (simp add: RMS_WINDOW_TIME_def)
  show "window_size 88200 = 4410"
    using window_size_eval [of 12 88200 4848846278492160 4410] by (simp add: RMS_WINDOW_TIME_def)
  show "window_size 96000 = 4800"
    using window_size_eval [of 12 96000 5277655813324800 4800] by (simp add: RMS_WINDOW_TIME_def)
qed

section \<open>Lemmas about one pass of the feed loop\<close>

lemma max_order: "MAX_ORDER = 10"
  by (simp add: MAX_ORDER_def YULE_ORDER_def BUTTER_ORDER_def)

subsection \<open>The filters write the output window only and read a bounded input window\<close>

lemma filterYule_outside:
  "j < op \<or> op + n \<le> j \<Longrightarrow> filterYule inp ip out op n k j = out j"
  by (induction n arbitrary: ip out op) auto

lemma filterButter_outside:
  "j < op \<or> op + n \<le> j \<Longrightarrow> filterButter inp ip out op n k j = out j"
  by (induction n arbitrary: ip out op) auto

lemma filterYule_cong:
  "(\<And>j d. j < n \<Longrightarrow> d \<le> 10 \<Longrightarrow> inp (ip + j - d) = inp' (ip' + j - d)) \<Longrightarrow>
   filterYule inp ip out op n k = filterYule inp' ip' out op n k"
proof (induction n arbitrary: ip ip' out op)
  case 0
  show ?case by simp
next
  case (Suc n)
  have w: "inp (ip - d) = inp' (ip' - d)" if "d \<le> 10" for d
    using Suc.prems [of 0 d] that by simp
  have r: "inp (ip + 1 + j - d) = inp' (ip' + 1 + j - d)" if "j < n" "d \<le> 10" for j d
    using Suc.prems [of "Suc j" d] that by simp
  have w0: "inp ip = inp' ip'" using w [of 0] by simp
  show ?case
    using Suc.IH [of "ip + 1" "ip' + 1", OF r]
    by (simp add: w0 w)
qed

lemma filterButter_cong:
  "(\<And>j d. j < n \<Longrightarrow> d \<le> 2 \<Longrightarrow> inp (ip + j - d) = inp' (ip + j - d)) \<Longrightarrow>
   filterButter inp ip out op n k = filterButter inp' ip out op n k"
proof (induction n arbitrary: ip out op)
  case 0
  show ?case by simp
next
  case (Suc n)
  have w: "inp (ip - d) = inp' (ip - d)" if "d \<le> 2" for d
    using Suc.prems [of 0 d] that by simp
  have r: "inp (ip + 1 + j - d) = inp' (ip + 1 + j - d)" if "j < n" "d \<le> 2" for j d
    using Suc.prems [of "Suc j" d] that by simp
  have w0: "inp ip = inp' ip" using w [of 0] by simp
  show ?case
    using Suc.IH [of "ip + 1", OF r]
    by (simp add: w0 w)
qed

subsection \<open>The two summation loops add every square once\<close>

lemma sum_single_eq:
  "sum_single buf cur i s = (s + (\<Sum>j<i. fsqr (buf (cur + j))), cur + i)"
proof (induction i arbitrary: cur s)
  case 0
  show ?case by simp
next
  case (Suc i)
  have "(\<Sum>j<Suc i. fsqr (buf (cur + j))) = fsqr (buf cur) + (\<Sum>j<i. fsqr (buf (cur + 1 + j)))"
    by (simp add: sum.lessThan_Suc_shift del: sum.lessThan_Suc)
  then show ?case by (simp add: Suc.IH del: sum.lessThan_Suc)
qed

lemma sum_add_split:
  "(\<Sum>j<a + b. g j) = (\<Sum>j<a. g j) + (\<Sum>j<b. (g (a + j) :: real))" for a b :: nat
proof (induction b)
  case 0
  show ?case by simp
next
  case (Suc b)
  have "{..<a + Suc b} = {..<Suc (a + b)}" by simp
  then have "(\<Sum>j<a + Suc b. g j) = (\<Sum>j<a + b. g j) + g (a + b)"
    by (simp only: sum.lessThan_Suc)
  then show ?case by (simp add: Suc.IH)
qed

lemma sum_sixteen:
  "(\<Sum>j<16. f (j::nat)) = f 0 + f 1 + f 2 + f 3 + f 4 + f 5 + f 6 + f 7 + f 8 + f 9
      + f 10 + f 11 + f 12 + f 13 + f 14 + (f 15 :: real)"
  by (simp add: eval_nat_numeral)

lemma sum_unrolled_eq:
  "sum_unrolled buf cur i s = s + (\<Sum>j<16 * i. fsqr (buf (cur + j)))"
proof (induction i arbitrary: cur s)
  case 0
  show ?case by simp
next
  case (Suc i)
  have "(\<Sum>j<16 + 16 * i. fsqr (buf (cur + j)))
        = (\<Sum>j<16. fsqr (buf (cur + j))) + (\<Sum>j<16 * i. fsqr (buf (cur + (16 + j))))"
    by (rule sum_add_split)
  then have split: "(\<Sum>j<16 * Suc i. fsqr (buf (cur + j)))
        = (\<Sum>j<16. fsqr (buf (cur + j))) + (\<Sum>j<16 * i. fsqr (buf (cur + 16 + j)))"
    by (simp add: add.assoc)
  show ?case
    by (simp add: Suc.IH split sum_sixteen [of "\<lambda>j. fsqr (buf (cur + j))"] del: mult_Suc_right)
qed


lemma sum_squares_eq:
  "sum_squares buf cur c s = s + (\<Sum>j<c. fsqr (buf (cur + j)))"
proof -
  have "(\<Sum>j<c mod 16 + 16 * (c div 16). fsqr (buf (cur + j)))
      = (\<Sum>j<c mod 16. fsqr (buf (cur + j)))
        + (\<Sum>j<16 * (c div 16). fsqr (buf (cur + (c mod 16 + j))))"
    by (rule sum_add_split)
  then show ?thesis
    by (simp add: sum_squares_def sum_single_eq sum_unrolled_eq add.assoc)
qed

subsection \<open>What a pass leaves alone\<close>

lemma accumulate_batch_frame:
  "linprebuf (accumulate_batch l r pos c rg) = linprebuf rg"
  "rinprebuf (accumulate_batch l r pos c rg) = rinprebuf rg"
  "linpre (accumulate_batch l r pos c rg) = linpre rg"
  "rinpre (accumulate_batch l r pos c rg) = rinpre rg"
  "lstep (accumulate_batch l r pos c rg) = lstep rg"
  "rstep (accumulate_batch l r pos c rg) = rstep rg"
  "lout (accumulate_batch l r pos c rg) = lout rg"
  "rout (accumulate_batch l r pos c rg) = rout rg"
  "sampleWindow (accumulate_batch l r pos c rg) = sampleWindow rg"
  "freqindex (accumulate_batch l r pos c rg) = freqindex rg"
  "first (accumulate_batch l r pos c rg) = first rg"
  "A (accumulate_batch l r pos c rg) = A rg"
  "B (accumulate_batch l r pos c rg) = B rg"
  by (simp_all add: accumulate_batch_def Let_def)

lemma accumulate_batch_totsamp:
  "totsamp (accumulate_batch l r pos c rg) = (totsamp rg + c) mod 2 ^ 32"
  by (simp add: accumulate_batch_def Let_def)

lemma window_complete_frame:
  "linprebuf (window_complete rg) = linprebuf rg"
  "rinprebuf (window_complete rg) = rinprebuf rg"
  "linpre (window_complete rg) = linpre rg"
  "rinpre (window_complete rg) = rinpre rg"
  "lstep (window_complete rg) = lstep rg"
  "rstep (window_complete rg) = rstep rg"
  "lout (window_complete rg) = lout rg"
  "rout (window_complete rg) = rout rg"
  "sampleWindow (window_complete rg) = sampleWindow rg"
  "freqindex (window_complete rg) = freqindex rg"
  "first (window_complete rg) = first rg"
  "B (window_complete rg) = B rg"
  "totsamp (window_complete rg) = 0"
  "lsum (window_complete rg) = 0"
  "rsum (window_complete rg) = 0"
  "A (window_complete rg) = (A rg)(window_ival rg := A rg (window_ival rg) + 1)"
  by (simp_all add: window_complete_def)

lemma analyze_batch_frame:
  "linprebuf (analyze_batch l r pos c rg) = linprebuf rg"
  "rinprebuf (analyze_batch l r pos c rg) = rinprebuf rg"
  "linpre (analyze_batch l r pos c rg) = linpre rg"
  "rinpre (analyze_batch l r pos c rg) = rinpre rg"
  "lstep (analyze_batch l r pos c rg) = lstep rg"
  "rstep (analyze_batch l r pos c rg) = rstep rg"
  "lout (analyze_batch l r pos c rg) = lout rg"
  "rout (analyze_batch l r pos c rg) = rout rg"
  "sampleWindow (analyze_batch l r pos c rg) = sampleWindow rg"
  "freqindex (analyze_batch l r pos c rg) = freqindex rg"
  "first (analyze_batch l r pos c rg) = first rg"
  "B (analyze_batch l r pos c rg) = B rg"
  by (simp_all add: analyze_batch_def Let_def accumulate_batch_frame window_complete_frame)

lemma analyze_batch_totsamp:
  assumes "totsamp rg + c \<le> sampleWindow rg" "sampleWindow rg < 2 ^ 32"
  shows "totsamp (analyze_batch l r pos c rg)
           = (if totsamp rg + c = sampleWindow rg then 0 else totsamp rg + c)"
proof -
  have "(totsamp rg + c) mod 2 ^ 32 = totsamp rg + c"
    using assms by simp
  then show ?thesis
    by (simp add: analyze_batch_def Let_def accumulate_batch_frame accumulate_batch_totsamp
        window_complete_frame)
qed

lemma analyze_batch_no_window:
  assumes "totsamp rg + c < sampleWindow rg" "sampleWindow rg < 2 ^ 32"
  shows "analyze_batch l r pos c rg = accumulate_batch l r pos c rg"
proof -
  have "(totsamp rg + c) mod 2 ^ 32 = totsamp rg + c"
    using assms by simp
  then show ?thesis
    using assms(1)
    by (simp add: analyze_batch_def Let_def accumulate_batch_frame accumulate_batch_totsamp)
qed

lemma analyze_batch_window:
  assumes "totsamp rg + c = sampleWindow rg" "sampleWindow rg < 2 ^ 32"
  shows "analyze_batch l r pos c rg = window_complete (accumulate_batch l r pos c rg)"
proof -
  have "(totsamp rg + c) mod 2 ^ 32 = totsamp rg + c"
    using assms by simp
  then show ?thesis
    using assms(1)
    by (simp add: analyze_batch_def Let_def accumulate_batch_frame accumulate_batch_totsamp)
qed

subsection \<open>A pass over several samples is as many passes over one sample\<close>

lemma accumulate_batch_empty: "accumulate_batch l r pos 0 rg = rg\<lparr>totsamp := totsamp rg mod 2 ^ 32\<rparr>"
  by (simp add: accumulate_batch_def Let_def sum_squares_eq)

lemma accumulate_batch_fields:
  assumes "MAX_ORDER \<le> q"
  shows "lstepbuf (accumulate_batch xl xr q c rg)
           = filterYule xl q (lstepbuf rg) (lstep rg + totsamp rg) c (ABYule ! freqindex rg)"
    and "rstepbuf (accumulate_batch xl xr q c rg)
           = filterYule xr q (rstepbuf rg) (rstep rg + totsamp rg) c (ABYule ! freqindex rg)"
    and "loutbuf (accumulate_batch xl xr q c rg)
           = filterButter (lstepbuf (accumulate_batch xl xr q c rg)) (lstep rg + totsamp rg)
               (loutbuf rg) (lout rg + totsamp rg) c (ABButter ! freqindex rg)"
    and "routbuf (accumulate_batch xl xr q c rg)
           = filterButter (rstepbuf (accumulate_batch xl xr q c rg)) (rstep rg + totsamp rg)
               (routbuf rg) (rout rg + totsamp rg) c (ABButter ! freqindex rg)"
    and "lsum (accumulate_batch xl xr q c rg)
           = lsum rg + (\<Sum>j<c. fsqr (loutbuf (accumulate_batch xl xr q c rg) (lout rg + totsamp rg + j)))"
    and "rsum (accumulate_batch xl xr q c rg)
           = rsum rg + (\<Sum>j<c. fsqr (routbuf (accumulate_batch xl xr q c rg) (rout rg + totsamp rg + j)))"
proof -
  have nq: "\<not> q < MAX_ORDER" using assms by simp
  show "lstepbuf (accumulate_batch xl xr q c rg)
           = filterYule xl q (lstepbuf rg) (lstep rg + totsamp rg) c (ABYule ! freqindex rg)"
    and "rstepbuf (accumulate_batch xl xr q c rg)
           = filterYule xr q (rstepbuf rg) (rstep rg + totsamp rg) c (ABYule ! freqindex rg)"
    and "loutbuf (accumulate_batch xl xr q c rg)
           = filterButter (lstepbuf (accumulate_batch xl xr q c rg)) (lstep rg + totsamp rg)
               (loutbuf rg) (lout rg + totsamp rg) c (ABButter ! freqindex rg)"
    and "routbuf (accumulate_batch xl xr q c rg)
           = filterButter (rstepbuf (accumulate_batch xl xr q c rg)) (rstep rg + totsamp rg)
               (routbuf rg) (rout rg + totsamp rg) c (ABButter ! freqindex rg)"
    and "lsum (accumulate_batch xl xr q c rg)
           = lsum rg + (\<Sum>j<c. fsqr (loutbuf (accumulate_batch xl xr q c rg) (lout rg + totsamp rg + j)))"
    and "rsum (accumulate_batch xl xr q c rg)
           = rsum rg + (\<Sum>j<c. fsqr (routbuf (accumulate_batch xl xr q c rg) (rout rg + totsamp rg + j)))"
    by (simp_all add: accumulate_batch_def Let_def nq sum_squares_eq
        del: filterYule.simps filterButter.simps sum.lessThan_Suc)
qed

lemma accumulate_batch_split:
  assumes q: "MAX_ORDER \<le> q" and t: "totsamp rg + 1 < 2 ^ 32"
  shows "accumulate_batch xl xr q (Suc c) rg
           = accumulate_batch xl xr (Suc q) c (accumulate_batch xl xr q (Suc 0) rg)"
proof -
  have q1: "MAX_ORDER \<le> Suc q" using q by simp
  let ?one = "accumulate_batch xl xr q (Suc 0) rg"
  let ?lhs = "accumulate_batch xl xr q (Suc c) rg"
  let ?rhs = "accumulate_batch xl xr (Suc q) c ?one"
  let ?t = "totsamp rg"
  let ?ky = "ABYule ! freqindex rg" and ?kb = "ABButter ! freqindex rg"
  have t1: "totsamp ?one = Suc ?t"
    using t by (simp add: accumulate_batch_totsamp)
  note fr = accumulate_batch_frame
  note fL = accumulate_batch_fields [OF q, of xl xr "Suc c" rg]
  note f1 = accumulate_batch_fields [OF q, of xl xr "Suc 0" rg]
  note fR = accumulate_batch_fields [OF q1, of xl xr c ?one]
  have SL: "lstepbuf ?lhs = lstepbuf ?rhs"
    unfolding fL(1) fR(1) f1(1) by (simp add: t1 fr)
  have SR: "rstepbuf ?lhs = rstepbuf ?rhs"
    unfolding fL(2) fR(2) f1(2) by (simp add: t1 fr)
  have agreeL: "lstepbuf ?rhs j = lstepbuf ?one j" if "j \<le> lstep rg + ?t" for j
    unfolding fR(1) using that by (intro filterYule_outside) (simp add: t1 fr)
  have agreeR: "rstepbuf ?rhs j = rstepbuf ?one j" if "j \<le> rstep rg + ?t" for j
    unfolding fR(2) using that by (intro filterYule_outside) (simp add: t1 fr)
  have OL1: "loutbuf ?one = filterButter (lstepbuf ?rhs) (lstep rg + ?t) (loutbuf rg) (lout rg + ?t) (Suc 0) ?kb"
    unfolding f1(3) by (rule filterButter_cong) (simp add: agreeL)
  have OR1: "routbuf ?one = filterButter (rstepbuf ?rhs) (rstep rg + ?t) (routbuf rg) (rout rg + ?t) (Suc 0) ?kb"
    unfolding f1(4) by (rule filterButter_cong) (simp add: agreeR)
  have OL: "loutbuf ?lhs = loutbuf ?rhs"
    unfolding fL(3) fR(3) SL OL1 by (simp add: t1 fr)
  have OR: "routbuf ?lhs = routbuf ?rhs"
    unfolding fL(4) fR(4) SR OR1 by (simp add: t1 fr)
  have oL: "loutbuf ?rhs (lout rg + ?t) = loutbuf ?one (lout rg + ?t)"
    unfolding fR(3) by (intro filterButter_outside) (simp add: t1 fr)
  have oR: "routbuf ?rhs (rout rg + ?t) = routbuf ?one (rout rg + ?t)"
    unfolding fR(4) by (intro filterButter_outside) (simp add: t1 fr)
  have "lsum ?lhs = lsum rg + (\<Sum>j<Suc c. fsqr (loutbuf ?rhs (lout rg + ?t + j)))"
    unfolding fL(5) OL ..
  also have "\<dots> = lsum rg + fsqr (loutbuf ?one (lout rg + ?t))
                 + (\<Sum>j<c. fsqr (loutbuf ?rhs (lout rg + ?t + 1 + j)))"
    by (simp add: sum.lessThan_Suc_shift oL del: sum.lessThan_Suc)
  also have "\<dots> = lsum ?rhs"
    unfolding fR(5) f1(5) by (simp add: t1 fr)
  finally have LS: "lsum ?lhs = lsum ?rhs" .
  have "rsum ?lhs = rsum rg + (\<Sum>j<Suc c. fsqr (routbuf ?rhs (rout rg + ?t + j)))"
    unfolding fL(6) OR ..
  also have "\<dots> = rsum rg + fsqr (routbuf ?one (rout rg + ?t))
                 + (\<Sum>j<c. fsqr (routbuf ?rhs (rout rg + ?t + 1 + j)))"
    by (simp add: sum.lessThan_Suc_shift oR del: sum.lessThan_Suc)
  also have "\<dots> = rsum ?rhs"
    unfolding fR(6) f1(6) by (simp add: t1 fr)
  finally have RS: "rsum ?lhs = rsum ?rhs" .
  have T: "totsamp ?lhs = totsamp ?rhs"
    unfolding accumulate_batch_totsamp [of xl xr "Suc q"] t1
    by (simp add: accumulate_batch_totsamp)
  show ?thesis
    by (rule ReplayGainContext.equality) (simp_all add: SL SR OL OR LS RS T, simp_all add: fr)
qed

lemma analyze_batch_empty:
  assumes "totsamp rg < sampleWindow rg" "sampleWindow rg < 2 ^ 32"
  shows "analyze_batch l r pos 0 rg = rg"
proof -
  have "totsamp rg mod 2 ^ 32 = totsamp rg" using assms by simp
  then show ?thesis
    using assms(1) analyze_batch_no_window [of rg 0 l r pos] assms(2)
    by (simp add: accumulate_batch_empty)
qed

lemma analyze_batch_split:
  assumes "MAX_ORDER \<le> q" "totsamp rg + Suc (Suc c) \<le> sampleWindow rg" "sampleWindow rg < 2 ^ 32"
  shows "analyze_batch xl xr q (Suc (Suc c)) rg
           = analyze_batch xl xr (Suc q) (Suc c) (analyze_batch xl xr q (Suc 0) rg)"
proof -
  have t: "totsamp rg + 1 < 2 ^ 32" using assms(2,3) by simp
  have one: "analyze_batch xl xr q (Suc 0) rg = accumulate_batch xl xr q (Suc 0) rg"
    using assms(2,3) by (intro analyze_batch_no_window) simp_all
  have sp: "accumulate_batch xl xr q (Suc (Suc c)) rg
              = accumulate_batch xl xr (Suc q) (Suc c) (accumulate_batch xl xr q (Suc 0) rg)"
    by (rule accumulate_batch_split [OF assms(1) t])
  show ?thesis
    unfolding one
    unfolding analyze_batch_def Let_def sp ..
qed

lemma batch_is_stream_pass:
  assumes "MAX_ORDER \<le> q" "totsamp rg + c \<le> sampleWindow rg"
    "totsamp rg < sampleWindow rg" "sampleWindow rg < 2 ^ 32"
  shows "analyze_batch xl xr q c rg = stream_pass xl xr q c rg"
  using assms
proof (induction c arbitrary: q rg)
  case 0
  then show ?case by (simp add: analyze_batch_empty)
next
  case (Suc c)
  show ?case
  proof (cases c)
    case 0
    then show ?thesis by simp
  next
    case (Suc c')
    let ?rg1 = "analyze_batch xl xr q (Suc 0) rg"
    have t1: "totsamp ?rg1 = totsamp rg + 1"
      using Suc.prems(2,4) \<open>c = Suc c'\<close>
      by (simp add: analyze_batch_totsamp)
    have sw: "sampleWindow ?rg1 = sampleWindow rg"
      by (simp add: analyze_batch_frame)
    have "analyze_batch xl xr q (Suc c) rg = analyze_batch xl xr (Suc q) c ?rg1"
      unfolding \<open>c = Suc c'\<close>
      using Suc.prems(1,2,4) \<open>c = Suc c'\<close> by (intro analyze_batch_split) simp_all
    also have "\<dots> = stream_pass xl xr (Suc q) c ?rg1"
      using Suc.prems \<open>c = Suc c'\<close> by (intro Suc.IH) (simp_all add: t1 sw)
    finally show ?thesis by simp
  qed
qed

lemma stream_pass_add:
  "stream_pass xl xr q (m + n) rg = stream_pass xl xr (q + m) n (stream_pass xl xr q m rg)"
  by (induction m arbitrary: q rg) simp_all

lemma stream_pass_frame:
  "linprebuf (stream_pass xl xr q m rg) = linprebuf rg"
  "rinprebuf (stream_pass xl xr q m rg) = rinprebuf rg"
  "linpre (stream_pass xl xr q m rg) = linpre rg"
  "rinpre (stream_pass xl xr q m rg) = rinpre rg"
  "lstep (stream_pass xl xr q m rg) = lstep rg"
  "rstep (stream_pass xl xr q m rg) = rstep rg"
  "lout (stream_pass xl xr q m rg) = lout rg"
  "rout (stream_pass xl xr q m rg) = rout rg"
  "sampleWindow (stream_pass xl xr q m rg) = sampleWindow rg"
  "freqindex (stream_pass xl xr q m rg) = freqindex rg"
  "first (stream_pass xl xr q m rg) = first rg"
  "B (stream_pass xl xr q m rg) = B rg"
  by (induction m arbitrary: q rg) (simp_all add: analyze_batch_frame)

lemma stream_pass_totsamp:
  "totsamp rg < sampleWindow rg \<Longrightarrow> sampleWindow rg < 2 ^ 32 \<Longrightarrow>
   totsamp (stream_pass xl xr q m rg) < sampleWindow rg"
proof (induction m arbitrary: q rg)
  case 0
  then show ?case by simp
next
  case (Suc m)
  let ?rg1 = "analyze_batch xl xr q (Suc 0) rg"
  have "totsamp ?rg1 < sampleWindow ?rg1"
    using Suc.prems by (simp add: analyze_batch_totsamp analyze_batch_frame)
  moreover have "sampleWindow ?rg1 = sampleWindow rg" by (simp add: analyze_batch_frame)
  ultimately show ?case
    using Suc.IH [of ?rg1 "Suc q"] Suc.prems(2) by simp
qed

subsection \<open>The loop reads the staged buffer as it would read the stream\<close>

lemma accumulate_batch_fields_any:
  "lstepbuf (accumulate_batch L R pos c rg)
     = filterYule (if pos < MAX_ORDER then linprebuf rg else L)
         (if pos < MAX_ORDER then linpre rg + pos else pos)
         (lstepbuf rg) (lstep rg + totsamp rg) c (ABYule ! freqindex rg)"
  "rstepbuf (accumulate_batch L R pos c rg)
     = filterYule (if pos < MAX_ORDER then rinprebuf rg else R)
         (if pos < MAX_ORDER then rinpre rg + pos else pos)
         (rstepbuf rg) (rstep rg + totsamp rg) c (ABYule ! freqindex rg)"
  "loutbuf (accumulate_batch L R pos c rg)
     = filterButter (lstepbuf (accumulate_batch L R pos c rg)) (lstep rg + totsamp rg)
         (loutbuf rg) (lout rg + totsamp rg) c (ABButter ! freqindex rg)"
  "routbuf (accumulate_batch L R pos c rg)
     = filterButter (rstepbuf (accumulate_batch L R pos c rg)) (rstep rg + totsamp rg)
         (routbuf rg) (rout rg + totsamp rg) c (ABButter ! freqindex rg)"
  "lsum (accumulate_batch L R pos c rg)
     = lsum rg + (\<Sum>j<c. fsqr (loutbuf (accumulate_batch L R pos c rg) (lout rg + totsamp rg + j)))"
  "rsum (accumulate_batch L R pos c rg)
     = rsum rg + (\<Sum>j<c. fsqr (routbuf (accumulate_batch L R pos c rg) (rout rg + totsamp rg + j)))"
  by (simp_all add: accumulate_batch_def Let_def sum_squares_eq
      del: filterYule.simps filterButter.simps sum.lessThan_Suc)

lemma accumulate_batch_staged:
  assumes lp: "linpre rg = MAX_ORDER" and rp: "rinpre rg = MAX_ORDER"
    and c: "pos < MAX_ORDER \<Longrightarrow> c \<le> MAX_ORDER - pos"
    and st: "\<And>i. pos < MAX_ORDER \<Longrightarrow> MAX_ORDER \<le> i \<Longrightarrow> i < MAX_ORDER + pos + c \<Longrightarrow>
               linprebuf rg i = L (i - MAX_ORDER) \<and> rinprebuf rg i = R (i - MAX_ORDER)"
  shows "accumulate_batch L R pos c rg
           = accumulate_batch (with_history (linprebuf rg) L) (with_history (rinprebuf rg) R)
               (MAX_ORDER + pos) c rg"
proof -
  let ?xl = "with_history (linprebuf rg) L" and ?xr = "with_history (rinprebuf rg) R"
  let ?lhs = "accumulate_batch L R pos c rg"
  let ?rhs = "accumulate_batch ?xl ?xr (MAX_ORDER + pos) c rg"
  have q: "MAX_ORDER \<le> MAX_ORDER + pos" by simp
  note fL = accumulate_batch_fields_any [of L R pos c rg]
  note fR = accumulate_batch_fields [OF q, of ?xl ?xr c rg]
  have inp: "(if pos < MAX_ORDER then linprebuf rg else L)
                ((if pos < MAX_ORDER then linpre rg + pos else pos) + j - d)
               = ?xl (MAX_ORDER + pos + j - d)
             \<and> (if pos < MAX_ORDER then rinprebuf rg else R)
                ((if pos < MAX_ORDER then rinpre rg + pos else pos) + j - d)
               = ?xr (MAX_ORDER + pos + j - d)" if "j < c" "d \<le> 10" for j d
  proof (cases "pos < MAX_ORDER")
    case True
    show ?thesis
      using st [OF True, of "MAX_ORDER + pos + j - d"] that(1)
      by (simp add: with_history_def True lp rp)
  next
    case False
    then have ge: "MAX_ORDER \<le> pos" by simp
    have ix: "\<not> MAX_ORDER + pos + j - d < MAX_ORDER"
      "MAX_ORDER + pos + j - d - MAX_ORDER = pos + j - d"
      using ge that(2) unfolding max_order by linarith+
    show ?thesis
      unfolding with_history_def using ix False by simp
  qed
  have yule: "filterYule (if pos < MAX_ORDER then linprebuf rg else L)
                (if pos < MAX_ORDER then linpre rg + pos else pos) S p c k
              = filterYule ?xl (MAX_ORDER + pos) S p c k"
    "filterYule (if pos < MAX_ORDER then rinprebuf rg else R)
                (if pos < MAX_ORDER then rinpre rg + pos else pos) S p c k
              = filterYule ?xr (MAX_ORDER + pos) S p c k" for S p k
    by (rule filterYule_cong, simp only: inp)+
  have SL: "lstepbuf ?lhs = lstepbuf ?rhs" unfolding fL(1) fR(1) by (rule yule(1))
  have SR: "rstepbuf ?lhs = rstepbuf ?rhs" unfolding fL(2) fR(2) by (rule yule(2))
  have OL: "loutbuf ?lhs = loutbuf ?rhs" unfolding fL(3) fR(3) SL ..
  have OR: "routbuf ?lhs = routbuf ?rhs" unfolding fL(4) fR(4) SR ..
  have LS: "lsum ?lhs = lsum ?rhs" unfolding fL(5) fR(5) OL ..
  have RS: "rsum ?lhs = rsum ?rhs" unfolding fL(6) fR(6) OR ..
  show ?thesis
    by (rule ReplayGainContext.equality)
      (simp_all add: SL SR OL OR LS RS accumulate_batch_totsamp, simp_all add: accumulate_batch_frame)
qed

lemma analyze_batch_staged:
  assumes "linpre rg = MAX_ORDER" "rinpre rg = MAX_ORDER"
    and "pos < MAX_ORDER \<Longrightarrow> c \<le> MAX_ORDER - pos"
    and "\<And>i. pos < MAX_ORDER \<Longrightarrow> MAX_ORDER \<le> i \<Longrightarrow> i < MAX_ORDER + pos + c \<Longrightarrow>
               linprebuf rg i = L (i - MAX_ORDER) \<and> rinprebuf rg i = R (i - MAX_ORDER)"
  shows "analyze_batch L R pos c rg
           = analyze_batch (with_history (linprebuf rg) L) (with_history (rinprebuf rg) R)
               (MAX_ORDER + pos) c rg"
proof -
  have "accumulate_batch L R pos c rg
          = accumulate_batch (with_history (linprebuf rg) L) (with_history (rinprebuf rg) R)
              (MAX_ORDER + pos) c rg"
    apply (rule accumulate_batch_staged [OF assms(1,2)])
     apply (rule assms(3), assumption)
    apply (rule assms(4); assumption)
    done
  then show ?thesis by (simp only: analyze_batch_def)
qed

lemma cursamples_of_bounds:
  assumes "totsamp rg < sampleWindow rg" "sampleWindow rg < 2 ^ 32" "0 < b"
  shows "0 < cursamples_of rg b pos" "cursamples_of rg b pos \<le> b"
    "totsamp rg + cursamples_of rg b pos \<le> sampleWindow rg"
    "pos < MAX_ORDER \<Longrightarrow> cursamples_of rg b pos \<le> MAX_ORDER - pos"
proof -
  have "sampleWindow rg + 2 ^ 32 - totsamp rg = 2 ^ 32 + (sampleWindow rg - totsamp rg)"
    using assms(1) by simp
  moreover have "sampleWindow rg - totsamp rg < 2 ^ 32" using assms(2) by simp
  ultimately have room: "(sampleWindow rg + 2 ^ 32 - totsamp rg) mod 2 ^ 32
                           = sampleWindow rg - totsamp rg"
    by (metis mod_add_self1 mod_less)
  show "0 < cursamples_of rg b pos" "cursamples_of rg b pos \<le> b"
    "totsamp rg + cursamples_of rg b pos \<le> sampleWindow rg"
    "pos < MAX_ORDER \<Longrightarrow> cursamples_of rg b pos \<le> MAX_ORDER - pos"
    using assms(1,3) unfolding cursamples_of_def Let_def room
    by (auto split: if_splits)
qed

lemma analyze_loop_stream:
  assumes "linpre rg = MAX_ORDER" "rinpre rg = MAX_ORDER"
    and "totsamp rg < sampleWindow rg" "sampleWindow rg < 2 ^ 32"
    and "\<And>i. MAX_ORDER \<le> i \<Longrightarrow> i < 2 * MAX_ORDER \<Longrightarrow> i < MAX_ORDER + (pos + b) \<Longrightarrow>
               linprebuf rg i = L (i - MAX_ORDER) \<and> rinprebuf rg i = R (i - MAX_ORDER)"
  shows "analyze_loop L R b pos rg
           = Some (GAIN_ANALYSIS_OK,
                   stream_pass (with_history (linprebuf rg) L) (with_history (rinprebuf rg) R)
                     (MAX_ORDER + pos) b rg)"
  using assms
proof (induction b arbitrary: pos rg rule: less_induct)
  case (less b)
  let ?xl = "with_history (linprebuf rg) L" and ?xr = "with_history (rinprebuf rg) R"
  show ?case
  proof (cases "b = 0")
    case True
    then show ?thesis by (subst analyze_loop.simps) simp
  next
    case False
    then have bpos: "0 < b" by simp
    define c where "c = cursamples_of rg b pos"
    note cb = cursamples_of_bounds [OF less.prems(3,4) bpos, of pos, folded c_def]
    define rg1 where "rg1 = analyze_batch L R pos c rg"
    have st: "linprebuf rg i = L (i - MAX_ORDER) \<and> rinprebuf rg i = R (i - MAX_ORDER)"
      if "pos < MAX_ORDER" "MAX_ORDER \<le> i" "i < MAX_ORDER + pos + c" for i
      using less.prems(5) [of i] that cb(2) cb(4) by simp
    have "rg1 = analyze_batch ?xl ?xr (MAX_ORDER + pos) c rg"
      unfolding rg1_def
      by (rule analyze_batch_staged [OF less.prems(1,2) cb(4) st])
    also have "\<dots> = stream_pass ?xl ?xr (MAX_ORDER + pos) c rg"
      using cb(3) less.prems(3,4) by (intro batch_is_stream_pass) simp_all
    finally have rg1: "rg1 = stream_pass ?xl ?xr (MAX_ORDER + pos) c rg" .
    have fr: "linpre rg1 = MAX_ORDER" "rinpre rg1 = MAX_ORDER" "sampleWindow rg1 = sampleWindow rg"
      "linprebuf rg1 = linprebuf rg" "rinprebuf rg1 = rinprebuf rg"
      using less.prems(1,2) by (simp_all add: rg1_def analyze_batch_frame)
    have "totsamp rg1 < sampleWindow rg"
      unfolding rg1 by (rule stream_pass_totsamp [OF less.prems(3,4)])
    then have t1: "totsamp rg1 < sampleWindow rg1" by (simp add: fr(3))
    have st1: "linprebuf rg1 i = L (i - MAX_ORDER) \<and> rinprebuf rg1 i = R (i - MAX_ORDER)"
      if "MAX_ORDER \<le> i" "i < 2 * MAX_ORDER" "i < MAX_ORDER + (pos + c + (b - c))" for i
      unfolding fr using less.prems(5) [of i] that cb(2) by simp
    have sw1: "sampleWindow rg1 < 2 ^ 32" using less.prems(4) by (simp add: fr)
    have lt: "b - c < b" using cb(1) bpos by simp
    have IH: "analyze_loop L R (b - c) (pos + c) rg1
               = Some (GAIN_ANALYSIS_OK,
                   stream_pass ?xl ?xr (MAX_ORDER + (pos + c)) (b - c) rg1)"
      using less.IH [OF lt fr(1,2) t1 sw1 st1] by (simp add: fr)
    have "stream_pass ?xl ?xr (MAX_ORDER + pos) (c + (b - c)) rg
            = stream_pass ?xl ?xr (MAX_ORDER + pos + c) (b - c) rg1"
      unfolding rg1 by (rule stream_pass_add)
    then have fin: "stream_pass ?xl ?xr (MAX_ORDER + (pos + c)) (b - c) rg1
                      = stream_pass ?xl ?xr (MAX_ORDER + pos) b rg"
      using cb(2) by (simp add: add.assoc)
    have noerr: "\<not> sampleWindow rg1 < totsamp rg1" using t1 by simp
    show ?thesis
      apply (subst analyze_loop.simps)
      apply (simp only: bpos if_True Let_def c_def [symmetric] rg1_def [symmetric] noerr if_False IH fin)
      done
  qed
qed

section \<open>The feed as a whole, and the window-counter invariant\<close>

subsection \<open>A whole call\<close>

lemma stage_input_frame:
  "linpre (stage_input L R n rg) = linpre rg"
  "rinpre (stage_input L R n rg) = rinpre rg"
  "lstep (stage_input L R n rg) = lstep rg"
  "rstep (stage_input L R n rg) = rstep rg"
  "lout (stage_input L R n rg) = lout rg"
  "rout (stage_input L R n rg) = rout rg"
  "sampleWindow (stage_input L R n rg) = sampleWindow rg"
  "totsamp (stage_input L R n rg) = totsamp rg"
  "freqindex (stage_input L R n rg) = freqindex rg"
  "lstepbuf (stage_input L R n rg) = lstepbuf rg"
  "rstepbuf (stage_input L R n rg) = rstepbuf rg"
  "loutbuf (stage_input L R n rg) = loutbuf rg"
  "routbuf (stage_input L R n rg) = routbuf rg"
  "lsum (stage_input L R n rg) = lsum rg"
  "rsum (stage_input L R n rg) = rsum rg"
  "first (stage_input L R n rg) = first rg"
  "A (stage_input L R n rg) = A rg"
  "B (stage_input L R n rg) = B rg"
  by (simp_all add: stage_input_def)

lemma stage_input_bufs:
  "linprebuf (stage_input L R n rg)
     = copy_into (linprebuf rg) MAX_ORDER L 0 (min n MAX_ORDER)"
  "rinprebuf (stage_input L R n rg)
     = copy_into (rinprebuf rg) MAX_ORDER R 0 (min n MAX_ORDER)"
  by (simp_all add: stage_input_def min_def)

lemma save_history_frame:
  "linpre (save_history L R n rg) = linpre rg"
  "rinpre (save_history L R n rg) = rinpre rg"
  "lstep (save_history L R n rg) = lstep rg"
  "rstep (save_history L R n rg) = rstep rg"
  "lout (save_history L R n rg) = lout rg"
  "rout (save_history L R n rg) = rout rg"
  "sampleWindow (save_history L R n rg) = sampleWindow rg"
  "totsamp (save_history L R n rg) = totsamp rg"
  "freqindex (save_history L R n rg) = freqindex rg"
  "lstepbuf (save_history L R n rg) = lstepbuf rg"
  "rstepbuf (save_history L R n rg) = rstepbuf rg"
  "loutbuf (save_history L R n rg) = loutbuf rg"
  "routbuf (save_history L R n rg) = routbuf rg"
  "lsum (save_history L R n rg) = lsum rg"
  "rsum (save_history L R n rg) = rsum rg"
  "first (save_history L R n rg) = first rg"
  "A (save_history L R n rg) = A rg"
  "B (save_history L R n rg) = B rg"
  by (simp_all add: save_history_def Let_def)

lemma with_history_staged:
  "with_history (linprebuf (stage_input L R n rg)) X = with_history (linprebuf rg) X"
  "with_history (rinprebuf (stage_input L R n rg)) X = with_history (rinprebuf rg) X"
  by (auto simp: with_history_def stage_input_bufs copy_into_def fun_eq_iff)

text \<open>The right channel the loop reads: the left one when there is one channel.\<close>

lemma WAAnalyzeSamples_stream:
  fixes L R :: "nat \<Rightarrow> Float_t"
  assumes "ready rg" "0 < n" "ch = 1 \<or> ch = 2"
  defines "R' \<equiv> (if ch = 1 then L else R)"
  shows "WAAnalyzeSamples rg L R n ch
           = Some (GAIN_ANALYSIS_OK,
               save_history L R' n
                 (stream_pass (with_history (linprebuf rg) L) (with_history (rinprebuf rg) R')
                    MAX_ORDER n (stage_input L R' n rg)))"
proof -
  let ?rg1 = "stage_input L R' n rg"
  have p: "linpre ?rg1 = MAX_ORDER" "rinpre ?rg1 = MAX_ORDER"
    using assms(1) by (simp_all add: ready_def stage_input_frame)
  have t: "totsamp ?rg1 < sampleWindow ?rg1"
    using assms(1) by (simp add: ready_def stage_input_frame)
  have w: "sampleWindow ?rg1 < 2 ^ 32"
    using assms(1) by (simp add: ready_def stage_input_frame)
  have st: "linprebuf ?rg1 i = L (i - MAX_ORDER) \<and> rinprebuf ?rg1 i = R' (i - MAX_ORDER)"
    if "MAX_ORDER \<le> i" "i < 2 * MAX_ORDER" "i < MAX_ORDER + (0 + n)" for i
  proof -
    have "i < MAX_ORDER + min n MAX_ORDER" using that by linarith
    with that(1) show ?thesis by (simp add: stage_input_bufs copy_into_def)
  qed
  have loop: "analyze_loop L R' n 0 ?rg1
      = Some (GAIN_ANALYSIS_OK,
              stream_pass (with_history (linprebuf rg) L) (with_history (rinprebuf rg) R')
                MAX_ORDER n ?rg1)"
    using analyze_loop_stream [OF p t w st] by (simp add: with_history_staged)
  have ch: "\<not> (ch \<noteq> 1 \<and> ch \<noteq> 2)" using assms(3) by simp
  show ?thesis
    unfolding WAAnalyzeSamples_def Let_def R'_def [symmetric]
    using assms(2) ch by (simp add: loop)
qed

lemma ready_feed:
  assumes "ready rg" "WAAnalyzeSamples rg L R n ch = Some (st, rg')"
  shows "ready rg'"
proof (cases "n = 0 \<or> (ch \<noteq> 1 \<and> ch \<noteq> 2)")
  case True
  with assms show ?thesis by (auto simp: WAAnalyzeSamples_def split: if_splits)
next
  case False
  then have n: "0 < n" and ch: "ch = 1 \<or> ch = 2" by auto
  let ?R = "if ch = 1 then L else R"
  let ?rg1 = "stage_input L ?R n rg"
  let ?xl = "with_history (linprebuf rg) L" and ?xr = "with_history (rinprebuf rg) ?R"
  have rg': "rg' = save_history L ?R n (stream_pass ?xl ?xr MAX_ORDER n ?rg1)"
    using WAAnalyzeSamples_stream [OF assms(1) n ch, of L R] assms(2) by simp
  have t: "totsamp ?rg1 < sampleWindow ?rg1" and w: "sampleWindow ?rg1 < 2 ^ 32"
    using assms(1) by (simp_all add: ready_def stage_input_frame)
  have "totsamp (stream_pass ?xl ?xr MAX_ORDER n ?rg1) < sampleWindow ?rg1"
    by (rule stream_pass_totsamp [OF t w])
  then show ?thesis
    using assms(1) unfolding rg' ready_def
    by (simp add: save_history_frame stream_pass_frame stage_input_frame)
qed

lemma window_size_supported:
  assumes "freq_switch f = Some idx"
  shows "window_size f = nat \<lceil>real_of_int f * 0.050\<rceil>" "0 < window_size f" "window_size f \<le> 4800"
proof -
  have "f \<in> {8000, 11025, 12000, 16000, 22050, 24000, 32000, 44100, 48000, 64000, 88200, 96000}"
    using assms freq_switch_Some_iff [of f] by simp
  then have "window_size f = nat \<lceil>real_of_int f * 0.050\<rceil> \<and> 0 < window_size f \<and> window_size f \<le> 4800"
    by (elim insertE emptyE) (simp_all add: window_size_table)
  then show "window_size f = nat \<lceil>real_of_int f * 0.050\<rceil>" "0 < window_size f" "window_size f \<le> 4800"
    by blast+
qed

lemma init_ok_fields:
  assumes "WAInitGainAnalysis rg0 f = (INIT_GAIN_ANALYSIS_OK, rg)"
  shows "linpre rg = MAX_ORDER" "rinpre rg = MAX_ORDER" "lstep rg = MAX_ORDER"
    "rstep rg = MAX_ORDER" "lout rg = MAX_ORDER" "rout rg = MAX_ORDER"
    "totsamp rg = 0" "lsum rg = 0" "rsum rg = 0"
    "sampleWindow rg = window_size (sint f)" "freq_switch (sint f) = Some (freqindex rg)"
    "A rg = clear_hist (A rg0)" "B rg = clear_hist (B rg0)"
  using assms
  by (auto simp: WAInitGainAnalysis_def WAResetSampleFrequency_def Let_def split: option.splits)

lemma ready_init:
  assumes "WAInitGainAnalysis rg0 f = (INIT_GAIN_ANALYSIS_OK, rg)"
  shows "ready rg"
  using init_ok_fields [OF assms] window_size_supported [of "sint f" "freqindex rg"]
  by (simp add: ready_def)

lemma ready_reinit:
  assumes "ready rg" "WAInitGainAnalysis rg f = (st, rg')"
  shows "ready rg'"
proof (cases st)
  case INIT_GAIN_ANALYSIS_OK
  with assms(2) show ?thesis by (simp add: ready_init)
next
  case INIT_GAIN_ANALYSIS_ERROR
  with assms show ?thesis
    by (auto simp: WAInitGainAnalysis_def WAResetSampleFrequency_def Let_def ready_def
        split: option.splits)
qed

lemma ready_title:
  assumes "ready rg" "WAGetTitleGain s rg = (g, rg')"
  shows "ready rg'"
  using assms by (auto simp: WAGetTitleGain_def Let_def ready_def)

lemma reachable_ready: "reachable rg \<Longrightarrow> ready rg"
proof (induction rule: reachable.induct)
  case (init rg0 samplefreq rg)
  then show ?case by (rule ready_init)
next
  case (reinit rg samplefreq st rg')
  then show ?case by (blast intro: ready_reinit)
next
  case (feed rg left_samples right_samples num_samples num_channels st rg')
  then show ?case by (blast intro: ready_feed)
next
  case (title rg s g rg')
  then show ?case by (blast intro: ready_title)
qed

lemma ready_feed_ok:
  assumes "ready rg" "ch = 1 \<or> ch = 2"
  shows "\<exists>rg'. WAAnalyzeSamples rg L R n ch = Some (GAIN_ANALYSIS_OK, rg')"
proof (cases "n = 0")
  case True
  then show ?thesis by (simp add: WAAnalyzeSamples_def)
next
  case False
  then have "0 < n" by simp
  from WAAnalyzeSamples_stream [OF assms(1) this assms(2)] show ?thesis by blast
qed

text \<open>
  C7. In every context that the interface can produce (after a successful
  \<^verbatim>\<open>WAInitGainAnalysis\<close> and any sequence of feeds, title queries and further
  initialisations) \<^verbatim>\<open>totsamp\<close> is below \<^verbatim>\<open>sampleWindow\<close>, and a feed with one or two
  channels returns, and returns \<^verbatim>\<open>GAIN_ANALYSIS_OK\<close>: the test
  \<^verbatim>\<open>rg->totsamp > rg->sampleWindow\<close> never succeeds.
\<close>

theorem window_counter_invariant:
  "reachable rg \<Longrightarrow>
     totsamp rg < sampleWindow rg
   \<and> (\<forall>L R n ch. ch = 1 \<or> ch = 2 \<longrightarrow>
          (\<exists>rg'. WAAnalyzeSamples rg L R n ch = Some (GAIN_ANALYSIS_OK, rg')))"
  using reachable_ready [of rg] ready_feed_ok [of rg]
  by (auto simp: ready_def)

lemma init_8000: "WAInitGainAnalysis blank_ctx 8000 = (INIT_GAIN_ANALYSIS_OK, ready_8000)"
proof -
  have "freq_switch (sint (8000 :: 32 word)) = Some 11"
    by (simp add: freq_switch_def)
  then have "fst (WAInitGainAnalysis blank_ctx 8000) = INIT_GAIN_ANALYSIS_OK"
    by (rule freq_switch_Some_ok)
  then show ?thesis
    unfolding ready_8000_def by (metis prod.collapse)
qed

lemma reachable_8000: "reachable ready_8000"
  by (rule reachable.init [OF init_8000])

theorem window_counter_invariant_witness:
  "reachable ready_8000
   \<and> totsamp ready_8000 < sampleWindow ready_8000
   \<and> ((2::int) = 1 \<or> (2::int) = 2)
   \<and> (\<exists>rg'. WAAnalyzeSamples ready_8000 unit_pulse silence 3 2 = Some (GAIN_ANALYSIS_OK, rg'))"
  using window_counter_invariant [OF reachable_8000] reachable_8000 by simp

section \<open>Completed windows and the two histograms\<close>

lemma window_ival_eq:
  "window_ival rg = nat (min 11999 (max 0 (trunc_int (window_val rg))))"
  by (auto simp add: window_ival_def Let_def hist_len min_def max_def)

lemma window_ival_less: "window_ival rg < 12000"
proof -
  have "min 11999 (max 0 (trunc_int (window_val rg))) \<le> 11999" by simp
  then show ?thesis unfolding window_ival_eq by linarith
qed

lemma stream_pass_no_window:
  "totsamp rg + m < sampleWindow rg \<Longrightarrow> sampleWindow rg < 2 ^ 32 \<Longrightarrow>
   totsamp (stream_pass xl xr q m rg) = totsamp rg + m \<and> A (stream_pass xl xr q m rg) = A rg"
proof (induction m arbitrary: q rg)
  case 0
  show ?case by simp
next
  case (Suc m)
  let ?rg1 = "analyze_batch xl xr q (Suc 0) rg"
  have one: "?rg1 = accumulate_batch xl xr q (Suc 0) rg"
    using Suc.prems by (intro analyze_batch_no_window) simp_all
  have t1: "totsamp ?rg1 = totsamp rg + 1"
    using Suc.prems by (simp add: analyze_batch_totsamp)
  have a1: "A ?rg1 = A rg" unfolding one by (simp add: accumulate_batch_frame)
  have sw: "sampleWindow ?rg1 = sampleWindow rg" by (simp add: analyze_batch_frame)
  have p1: "totsamp ?rg1 + m < sampleWindow ?rg1" "sampleWindow ?rg1 < 2 ^ 32"
    using Suc.prems by (simp_all add: t1 sw)
  show ?case using Suc.IH [OF p1, of "Suc q"] by (simp add: t1 a1)
qed

lemma feed_completes_window:
  assumes "ready rg" "0 < n" "totsamp rg + n = sampleWindow rg" "ch = 1 \<or> ch = 2"
  shows "\<exists>acc rg'. WAAnalyzeSamples rg L R n ch = Some (GAIN_ANALYSIS_OK, rg')
           \<and> totsamp acc = sampleWindow rg \<and> A acc = A rg
           \<and> A rg' = (A rg)(window_ival acc := A rg (window_ival acc) + 1)
           \<and> lsum rg' = 0 \<and> rsum rg' = 0 \<and> totsamp rg' = 0 \<and> B rg' = B rg"
proof -
  define R' where "R' = (if ch = 1 then L else R)"
  define rg0 where "rg0 = stage_input L R' n rg"
  define xl where "xl = with_history (linprebuf rg) L"
  define xr where "xr = with_history (rinprebuf rg) R'"
  obtain m where n: "n = m + 1" using assms(2) by (metis Suc_eq_plus1 gr0_implies_Suc)
  have w: "sampleWindow rg0 < 2 ^ 32" "sampleWindow rg0 = sampleWindow rg"
    "totsamp rg0 = totsamp rg" "A rg0 = A rg" "B rg0 = B rg"
    using assms(1) by (simp_all add: ready_def rg0_def stage_input_frame)
  define rgm where "rgm = stream_pass xl xr MAX_ORDER m rg0"
  have lt: "totsamp rg0 + m < sampleWindow rg0"
    using assms(3) n w by simp
  have tm: "totsamp rgm = totsamp rg + m" and am: "A rgm = A rg"
    using stream_pass_no_window [OF lt w(1), of xl xr MAX_ORDER]
    by (simp_all add: w rgm_def)
  have swm: "sampleWindow rgm = sampleWindow rg" and bm: "B rgm = B rg"
    by (simp_all add: rgm_def stream_pass_frame w)
  define acc where "acc = accumulate_batch xl xr (MAX_ORDER + m) (Suc 0) rgm"
  have full: "totsamp rgm + Suc 0 = sampleWindow rgm"
    using assms(3) n by (simp add: tm swm)
  have wm: "sampleWindow rgm < 2 ^ 32" using w(1,2) by (simp add: swm)
  have last: "analyze_batch xl xr (MAX_ORDER + m) (Suc 0) rgm = window_complete acc"
    unfolding acc_def by (rule analyze_batch_window [OF full wm])
  have "stream_pass xl xr MAX_ORDER (m + 1) rg0 = stream_pass xl xr (MAX_ORDER + m) 1 rgm"
    unfolding rgm_def by (rule stream_pass_add)
  then have whole: "stream_pass xl xr MAX_ORDER n rg0 = window_complete acc"
    unfolding n by (simp add: last)
  have res: "WAAnalyzeSamples rg L R n ch
               = Some (GAIN_ANALYSIS_OK, save_history L R' n (window_complete acc))"
    using WAAnalyzeSamples_stream [OF assms(1,2,4), of L R]
    unfolding R'_def [symmetric] xl_def [symmetric] xr_def [symmetric] rg0_def [symmetric]
    by (simp only: whole)
  have "(totsamp rgm + Suc 0) mod 2 ^ 32 = totsamp rgm + Suc 0"
    using full wm by simp
  then have tacc: "totsamp acc = sampleWindow rg"
    using full by (simp add: acc_def accumulate_batch_totsamp swm)
  have aacc: "A acc = A rg" by (simp add: acc_def accumulate_batch_frame am)
  have bacc: "B acc = B rg" by (simp add: acc_def accumulate_batch_frame bm)
  show ?thesis
    apply (rule exI [of _ acc])
    apply (rule exI [of _ "save_history L R' n (window_complete acc)"])
    apply (simp only: res tacc aacc save_history_frame window_complete_frame bacc)
    done
qed

lemma analyze_loop_album:
  assumes "analyze_loop L R b pos rg = Some y"
  shows "B (snd y) = B rg"
proof (rule analyze_loop.raw_induct [where P = "\<lambda>L R b pos rg y. B (snd y) = B rg", OF _ assms])
  fix loop :: "(nat \<Rightarrow> real) \<Rightarrow> (nat \<Rightarrow> real) \<Rightarrow> nat \<Rightarrow> nat \<Rightarrow> ReplayGainContext
                 \<Rightarrow> (gain_status \<times> ReplayGainContext) option"
    and L R b pos rg y
  assume IH: "\<And>L R b pos rg y. loop L R b pos rg = Some y \<Longrightarrow> B (snd y) = B rg"
    and eq: "(if 0 < b
              then let cursamples = cursamples_of rg b pos;
                       rg1 = analyze_batch L R pos cursamples rg
                   in if sampleWindow rg1 < totsamp rg1
                      then Some (GAIN_ANALYSIS_ERROR, rg1)
                      else loop L R (b - cursamples) (pos + cursamples) rg1
              else Some (GAIN_ANALYSIS_OK, rg)) = Some y"
  show "B (snd y) = B rg"
  proof (cases "0 < b")
    case False
    with eq show ?thesis by auto
  next
    case True
    define rg1 where "rg1 = analyze_batch L R pos (cursamples_of rg b pos) rg"
    have b1: "B rg1 = B rg" by (simp add: rg1_def analyze_batch_frame)
    show ?thesis
    proof (cases "sampleWindow rg1 < totsamp rg1")
      case True
      with eq \<open>0 < b\<close> have "y = (GAIN_ANALYSIS_ERROR, rg1)"
        by (simp add: Let_def rg1_def)
      then show ?thesis by (simp add: b1)
    next
      case False
      with eq \<open>0 < b\<close>
      have "loop L R (b - cursamples_of rg b pos) (pos + cursamples_of rg b pos) rg1 = Some y"
        by (simp add: Let_def rg1_def)
      from IH [OF this] show ?thesis by (simp only: b1)
    qed
  qed
qed

lemma feed_album:
  assumes "WAAnalyzeSamples rg L R n ch = Some (st, rg')"
  shows "B rg' = B rg"
proof (cases "n = 0 \<or> (ch \<noteq> 1 \<and> ch \<noteq> 2)")
  case True
  with assms show ?thesis by (auto simp: WAAnalyzeSamples_def split: if_splits)
next
  case False
  define R' where "R' = (if ch = 1 then L else R)"
  define rg1 where "rg1 = stage_input L R' n rg"
  from assms False obtain y where y: "analyze_loop L R' n 0 rg1 = Some y"
    and r: "rg' = (case fst y of GAIN_ANALYSIS_ERROR \<Rightarrow> snd y
                  | GAIN_ANALYSIS_OK \<Rightarrow> save_history L R' n (snd y))"
    unfolding WAAnalyzeSamples_def Let_def R'_def [symmetric] rg1_def [symmetric]
    by (auto split: option.splits gain_status.splits)
  have "B (snd y) = B rg1" by (rule analyze_loop_album [OF y])
  then show ?thesis
    unfolding r by (simp add: rg1_def stage_input_frame save_history_frame split: gain_status.splits)
qed

lemma ready_8000_fields:
  "ready ready_8000" "sampleWindow ready_8000 = 400" "totsamp ready_8000 = 0"
  "A ready_8000 = no_counts" "B ready_8000 = no_counts"
proof -
  note f = init_ok_fields [OF init_8000]
  show "ready ready_8000" by (rule ready_init [OF init_8000])
  show "sampleWindow ready_8000 = 400" using f(10) by (simp add: window_size_table)
  show "totsamp ready_8000 = 0" by (rule f(7))
  show "A ready_8000 = no_counts"
    using f(12) by (simp add: clear_hist_def blank_ctx_def no_counts_def fun_eq_iff)
  show "B ready_8000 = no_counts"
    using f(13) by (simp add: clear_hist_def blank_ctx_def no_counts_def fun_eq_iff)
qed



lemma one_window_feed:
  "WAAnalyzeSamples ready_8000 silence silence 400 2 = Some (GAIN_ANALYSIS_OK, one_window_ctx)"
  "\<exists>i<12000. A one_window_ctx = no_counts(i := 1)"
  "B one_window_ctx = no_counts"
proof -
  have full: "totsamp ready_8000 + 400 = sampleWindow ready_8000"
    by (simp add: ready_8000_fields)
  from feed_completes_window [OF ready_8000_fields(1) _ full, of 2 silence silence]
  obtain acc rg' where r: "WAAnalyzeSamples ready_8000 silence silence 400 2 = Some (GAIN_ANALYSIS_OK, rg')"
    and a: "A rg' = (A ready_8000)(window_ival acc := A ready_8000 (window_ival acc) + 1)"
    and b: "B rg' = B ready_8000"
    by auto
  have e: "one_window_ctx = rg'" using r by (simp add: one_window_ctx_def)
  show "WAAnalyzeSamples ready_8000 silence silence 400 2 = Some (GAIN_ANALYSIS_OK, one_window_ctx)"
    using r e by simp
  have "A one_window_ctx = no_counts(window_ival acc := 1)"
    unfolding e a by (simp add: ready_8000_fields no_counts_def)
  then show "\<exists>i<12000. A one_window_ctx = no_counts(i := 1)"
    using window_ival_less [of acc] by blast
  show "B one_window_ctx = no_counts" unfolding e b by (rule ready_8000_fields)
qed

lemma empty_result: "analyzeResult s no_counts 12000 = s"
  using analyzeResult_walk [of no_counts 12000 s]
  by (simp add: counts_no_counts spec_total_zero)

text \<open>
  C4, as stated, fails: a completed window is counted in the title histogram \<^verbatim>\<open>A\<close> only.
  The album histogram \<^verbatim>\<open>B\<close> is written by \<^verbatim>\<open>WAGetTitleGain\<close> (and cleared by
  \<^verbatim>\<open>WAInitGainAnalysis\<close>), never by \<^verbatim>\<open>WAAnalyzeSamples\<close>; the header comment of the
  code says that \<^verbatim>\<open>GetAlbumGain\<close> covers the samples "finalized with GetTitleGain()".
  After one full window at 8000 Hz the title query has a result and the album query
  returns the sentinel.
\<close>

theorem full_window_missing_from_album:
  "WAAnalyzeSamples ready_8000 silence silence 400 2 = Some (GAIN_ANALYSIS_OK, one_window_ctx)
   \<and> spec_total (counts (A one_window_ctx)) 12000 = 1
   \<and> spec_total (counts (B one_window_ctx)) 12000 = 0
   \<and> fst (WAGetTitleGain (- 24601) one_window_ctx) \<noteq> - 24601
   \<and> WAGetAlbumGain (- 24601) one_window_ctx = - 24601"
proof -
  from one_window_feed(2) obtain i where i: "i < 12000" and a: "A one_window_ctx = no_counts(i := 1)"
    by blast
  have t: "spec_total (counts (A one_window_ctx)) 12000 = 1"
    unfolding a using i by (simp add: counts_upd counts_no_counts spec_total_upd spec_total_zero)
  have "real i \<le> 11999" using i by simp
  then have g: "fst (WAGetTitleGain (- 24601) one_window_ctx) \<noteq> - 24601"
    unfolding title_gain_eq a using single_bucket_result [OF i, of 1 "- 24601"] by simp
  show ?thesis
    using t g
    by (simp add: one_window_feed(1,3) album_gain_eq empty_result counts_no_counts spec_total_zero)
qed

text \<open>
  C4, amended. \<^verbatim>\<open>WAAnalyzeSamples\<close> never changes the album histogram, whatever it
  returns. \<^verbatim>\<open>WAGetTitleGain\<close> adds every title bucket to the album bucket of the same
  index and zeroes the title bucket, so each increment of the title histogram reaches the
  album histogram once, at the next title query. The title result is computed from \<^verbatim>\<open>A\<close>
  alone and the album result from \<^verbatim>\<open>B\<close> alone: the album query reflects the windows of
  the titles closed by a title query, and not the windows counted since the last one.
\<close>

theorem album_updated_by_title_query:
  "(WAAnalyzeSamples rg L R n ch = Some (st, rg') \<longrightarrow> B rg' = B rg)
   \<and> (\<forall>i<12000. B (snd (WAGetTitleGain s rg)) i = B rg i + A rg i
                \<and> A (snd (WAGetTitleGain s rg)) i = 0)
   \<and> fst (WAGetTitleGain s rg) = analyzeResult s (A rg) 12000
   \<and> WAGetAlbumGain s rg = analyzeResult s (B rg) 12000"
  using feed_album [of rg L R n ch st rg']
  by (simp add: title_gain_eq album_gain_eq) (simp add: WAGetTitleGain_def Let_def hist_len)

theorem album_updated_by_title_query_witness:
  "WAAnalyzeSamples ready_8000 silence silence 400 2 = Some (GAIN_ANALYSIS_OK, one_window_ctx)
   \<and> B one_window_ctx = B ready_8000
   \<and> (5::nat) < 12000
   \<and> B (snd (WAGetTitleGain (- 24601) busy_ctx)) 5 = 4
   \<and> A (snd (WAGetTitleGain (- 24601) busy_ctx)) 5 = 0"
proof -
  from album_updated_by_title_query [of ready_8000 silence silence 400 2 GAIN_ANALYSIS_OK one_window_ctx]
  have "B one_window_ctx = B ready_8000" using one_window_feed(1) by blast
  moreover from album_updated_by_title_query [of busy_ctx silence silence 0 2 GAIN_ANALYSIS_OK busy_ctx "- 24601"]
  have "B (snd (WAGetTitleGain (- 24601) busy_ctx)) 5 = B busy_ctx 5 + A busy_ctx 5
        \<and> A (snd (WAGetTitleGain (- 24601) busy_ctx)) 5 = 0" by simp
  ultimately show ?thesis
    by (simp add: one_window_feed(1) busy_ctx_def no_counts_def)
qed








section \<open>Splitting a feed into chunks\<close>

subsection \<open>The passes over the stream do not look at the raw-input buffers\<close>





subsection \<open>The passes read the streams through a window of eleven entries\<close>




subsection \<open>A call in normal form\<close>







subsection \<open>Two calls against one\<close>



subsection \<open>Contexts with the same analysis state\<close>







subsection \<open>Any split into chunks\<close>




subsection \<open>One call against many\<close>





end
